theory Spec2Isabelle
  imports Complex_Main
begin

unbundle bit_operations_syntax

section \<open>JavaScript primitives used by the program\<close>

text \<open>
  Numbers that the program treats as integers (dimensions, byte values, indices, packet
  sizes) are modelled as \<^typ>\<open>int\<close>; quantities multiplied by the DPI scale factor are
  \<^typ>\<open>real\<close>, the exact values that the doubles of the program stand for. The bitwise
  operators of JavaScript work on the 32-bit two's complement reading of their operands,
  which is written out here.
\<close>

definition to_int32 :: "int \<Rightarrow> int" where
  "to_int32 a = signed_take_bit 31 a"

text \<open>\<^verbatim>\<open>a >> n\<close>: sign-propagating right shift, shift count taken modulo 32.\<close>

definition js_sar :: "int \<Rightarrow> int \<Rightarrow> int" where
  "js_sar a n = drop_bit (nat (to_int32 n mod 32)) (to_int32 a)"

text \<open>\<^verbatim>\<open>a << n\<close>: left shift, shift count taken modulo 32, result wrapped to 32 bits.\<close>

definition js_shl :: "int \<Rightarrow> int \<Rightarrow> int" where
  "js_shl a n = to_int32 (push_bit (nat (to_int32 n mod 32)) (to_int32 a))"

definition js_and :: "int \<Rightarrow> int \<Rightarrow> int" where
  "js_and a b = to_int32 a AND to_int32 b"

definition js_or :: "int \<Rightarrow> int \<Rightarrow> int" where
  "js_or a b = to_int32 a OR to_int32 b"

text \<open>\<^verbatim>\<open>Math.round\<close> rounds to the nearest integer, ties towards plus infinity.\<close>

definition js_round :: "real \<Rightarrow> int" where
  "js_round x = \<lfloor>x + 1 / 2\<rfloor>"

text \<open>
  \<^verbatim>\<open>Array.prototype.slice(start, end)\<close>: a negative index counts from the end, both
  indices are clamped to the array, and an empty range gives the empty array.
\<close>

definition js_slice :: "'a list \<Rightarrow> int \<Rightarrow> int \<Rightarrow> 'a list" where
  "js_slice xs start end =
     (let len = int (length xs);
          k = (if start < 0 then max (len + start) 0 else min start len);
          final = (if end < 0 then max (len + end) 0 else min end len)
      in take (nat (final - k)) (drop (nat k) xs))"

text \<open>\<^verbatim>\<open>a || b\<close> on an optional number: \<^verbatim>\<open>undefined\<close> and \<^verbatim>\<open>0\<close> are falsy.\<close>

definition or_default :: "'a::zero option \<Rightarrow> 'a \<Rightarrow> 'a" where
  "or_default a b = (case a of None \<Rightarrow> b | Some v \<Rightarrow> if v = 0 then b else v)"

section \<open>Types (types/index.ts)\<close>

text \<open>
  Interfaces are records. Several interfaces share field names (\<open>width\<close>, \<open>height\<close>,
  \<open>position\<close>, ...); such a field is written with its record, as in
  \<open>LineElement.width\<close>. The records are declared in an order that leaves the plain names
  \<open>width\<close>, \<open>height\<close> and \<open>dimensions\<close> to \<open>ImageDimensions\<close> and \<open>ImageSplit\<close>.
  The coordinates \<^verbatim>\<open>x\<close> and \<^verbatim>\<open>y\<close> are the fields \<open>pos_x\<close>, \<open>pos_y\<close> of a position and
  \<open>bounds_x\<close>, \<open>bounds_y\<close> of a bounding box. Template-space numbers are reals; an optional
  field is an \<open>option\<close>.
\<close>

record Position =
  pos_x :: real
  pos_y :: real

record TextElement =
  content :: string
  position :: Position
  fontSize :: "real option"
  fontFamily :: "string option"
  align :: "string option"

record LineElement =
  start :: Position
  end' :: Position
  width :: "real option"

record RectangleElement =
  position :: Position
  width :: real
  height :: real
  filled :: "bool option"

record CircleElement =
  center :: Position
  radius :: real
  filled :: "bool option"

record Bounds =
  bounds_x :: real
  bounds_y :: real
  width :: real
  height :: real

record StripeElement =
  direction :: string
  spacing :: real
  width :: real
  bounds :: "Bounds option"

record GridElement =
  cellWidth :: real
  cellHeight :: real
  lineWidth :: "real option"
  bounds :: "Bounds option"

text \<open>
  The union \<^verbatim>\<open>RenderElement\<close> is discriminated by its \<^verbatim>\<open>type\<close> tag. A template is parsed
  JSON of which only \<^verbatim>\<open>name\<close> and \<^verbatim>\<open>elements\<close> are validated, so an entry of \<^verbatim>\<open>elements\<close>
  need not belong to the union. \<open>Unknown tag\<close> stands for an entry whose tag is none of
  \<^verbatim>\<open>text\<close>, \<^verbatim>\<open>line\<close>, \<^verbatim>\<open>rectangle\<close>, \<^verbatim>\<open>circle\<close>, \<^verbatim>\<open>stripes\<close>, \<^verbatim>\<open>grid\<close>, with \<open>tag\<close> the
  text that \<^verbatim>\<open>`${element.type}`\<close> prints for it (\<^verbatim>\<open>undefined\<close> for an entry without a tag).
  \<open>NullEntry\<close> stands for the entry \<^verbatim>\<open>null\<close> (or \<^verbatim>\<open>undefined\<close>), on which reading \<^verbatim>\<open>.type\<close>
  throws. An entry with one of the six tags carries the fields of its interface.
\<close>

datatype RenderElement =
    Text TextElement
  | Line LineElement
  | Rectangle RectangleElement
  | Circle CircleElement
  | Stripes StripeElement
  | Grid GridElement
  | Unknown string
  | NullEntry

record TemplateDimensions =
  width :: "int option"
  height :: "int option"

record DefaultFont =
  family :: string
  size' :: real

record RenderTemplate =
  name :: string
  description :: "string option"
  dimensions :: "TemplateDimensions option"
  defaultFont :: "DefaultFont option"
  elements :: "RenderElement list"

text \<open>A value of a variable: a string or a number (integers are modelled).\<close>

datatype VariableValue = VString string | VNumber int

text \<open>
  \<^verbatim>\<open>Record<string, string | number>\<close>: the entries in the order \<^verbatim>\<open>Object.entries\<close>
  enumerates them.
\<close>

type_synonym Variables = "(string \<times> VariableValue) list"

record JsonRenderOptions =
  template :: RenderTemplate
  variables :: "Variables option"

record PrintOptions =
  firstLine :: string
  secondLine :: string
  thirdLine :: "string option"
  fontSize :: real
  fontFamily :: string

text \<open>\<^verbatim>\<open>CanvasConfig\<close> is declared in utils/imageProcessor.ts.\<close>

record CanvasConfig =
  width :: int
  height :: int
  scaleFactor :: real
  adjustedFontSize :: int

record PrinterConfig =
  portPath :: string
  baudRate :: int
  packetSize :: int
  exitDelay :: int
  packetDelay :: int

record ImageDimensions =
  width :: int
  height :: int
  dpi :: int

record PrinterProtocol =
  firmwareRequest :: "int list"
  prefix :: "int list"
  postfix :: "int list"

section \<open>Protocol framing (utils/config.ts)\<close>

definition getPrinterProtocol :: "ImageDimensions \<Rightarrow> PrinterProtocol" where
  "getPrinterProtocol imageDimensions =
     \<lparr> firmwareRequest = [0x10, 0xFF, 0x20, 0xF1],
       prefix =
         [0x10, 0xFF, 0xFE, 0x01, 0x10, 0xFF, 0xFE, 0x40, 0x1D, 0x76, 0x30,
          js_sar (height imageDimensions) 8, js_and (height imageDimensions) 0xFF,
          js_sar (width imageDimensions) 8, js_and (width imageDimensions) 0xFF, 0x00],
       postfix = [0x1B, 0x4A, 0x40, 0x10, 0xFF, 0xFE, 0x45] \<rparr>"

definition IMAGE_DIMENSIONS :: "int \<Rightarrow> ImageDimensions" where
  \<comment> \<open>the DPI comes from the environment (\<^verbatim>\<open>PRINTER_DPI\<close>, default 203)\<close>
  "IMAGE_DIMENSIONS envDpi = \<lparr> width = 0xE3, height = 0x11, dpi = envDpi \<rparr>"

section \<open>Image processor (utils/imageProcessor.ts)\<close>

definition STANDARD_DPI :: int where
  "STANDARD_DPI = 96"

definition HEIGHT_MULTIPLIER :: int where
  "HEIGHT_MULTIPLIER = 8"

definition BITS_PER_BYTE :: int where
  "BITS_PER_BYTE = 8"

definition WHITE_PIXEL_VALUE :: int where
  "WHITE_PIXEL_VALUE = 0xFF"

definition WHITE :: string where
  "WHITE = ''#ffffff''"

definition BLACK :: string where
  "BLACK = ''#000000''"

subsection \<open>The canvas\<close>

text \<open>
  The canvas is an external library. What the program does to a 2D context is the sequence
  of calls and property assignments it makes, in order; a context is modelled as that
  sequence. The font string \<^verbatim>\<open>`${size}px "${family}" normal`\<close> is kept as its two parts.
\<close>

datatype CanvasCall =
    Save
  | Restore
  | SetFillStyle string
  | SetStrokeStyle string
  | SetLineWidth real
  | SetFont int string
  | SetTextAlign string
  | FillRect int int int int
  | StrokeRect int int int int
  | FillText string int int
  | BeginPath
  | MoveTo int int
  | LineTo int int
  | Arc int int int real real
  | Fill
  | Stroke

type_synonym Context2D = "CanvasCall list"

text \<open>The error messages passed to \<^verbatim>\<open>logger.error\<close>, in order; other log levels are left out.\<close>

type_synonym Logger = "string list"

subsection \<open>Bit packing\<close>

text \<open>
  \<^verbatim>\<open>bitArray.reduce((value, bit, index) => ..., 0)\<close>: the fold from \<open>index\<close> on with the
  accumulated \<open>v\<close>.
\<close>

fun reduceBits :: "int list \<Rightarrow> int \<Rightarrow> int \<Rightarrow> int" where
  "reduceBits [] index v = v"
| "reduceBits (b # rest) index v =
     reduceBits rest (index + 1) (if b = 1 then js_or v (js_shl 1 index) else v)"

definition bitArrayToByte :: "int list \<Rightarrow> int" where
  "bitArrayToByte bitArray = reduceBits bitArray 0 0"

text \<open>\<^verbatim>\<open>pixels[i]\<close> on the raw buffer: \<^verbatim>\<open>undefined\<close> outside of it.\<close>

definition buffer_get :: "int list \<Rightarrow> int \<Rightarrow> int option" where
  "buffer_get pixels i =
     (if 0 \<le> i \<and> i < int (length pixels) then Some (pixels ! nat i) else None)"

text \<open>
  The inner loop of \<^verbatim>\<open>canvasToImageData\<close> over \<open>y\<close>, downwards from \<open>y\<close>, with the
  current \<open>bitChunk\<close> and \<open>imageData\<close>. \<^verbatim>\<open>unshift\<close> puts the new bit in front.
\<close>

function columnLoop ::
  "int \<Rightarrow> int list \<Rightarrow> int \<Rightarrow> int \<Rightarrow> int list \<Rightarrow> int list \<Rightarrow> int list" where
  "columnLoop stride pixels x y bitChunk imageData =
     (if y \<ge> 0 then
        let pixelIndex = y * stride + x * 4;
            blueValue = buffer_get pixels pixelIndex;
            b = (if blueValue = Some WHITE_PIXEL_VALUE then 0 else 1);
            bitChunk' = b # bitChunk
        in if int (length bitChunk') = BITS_PER_BYTE
           then columnLoop stride pixels x (y - 1) [] (imageData @ [bitArrayToByte bitChunk'])
           else columnLoop stride pixels x (y - 1) bitChunk' imageData
      else imageData)"
  by pat_completeness auto
termination
  by (relation "measure (\<lambda>(stride, pixels, x, y, bitChunk, imageData). nat (y + 1))") auto

declare columnLoop.simps [simp del]

text \<open>The outer loop over \<open>x\<close>; every column starts with an empty \<open>bitChunk\<close>.\<close>

function imageLoop ::
  "int \<Rightarrow> int list \<Rightarrow> CanvasConfig \<Rightarrow> int \<Rightarrow> int list \<Rightarrow> int list" where
  "imageLoop stride pixels config x imageData =
     (if x < CanvasConfig.width config then
        imageLoop stride pixels config (x + 1)
          (columnLoop stride pixels x (CanvasConfig.height config - 1) [] imageData)
      else imageData)"
  by pat_completeness auto
termination
  by (relation "measure (\<lambda>(stride, pixels, config, x, imageData). nat (CanvasConfig.width config - x))")
     auto

declare imageLoop.simps [simp del]

definition canvasToImageData :: "int \<Rightarrow> int list \<Rightarrow> CanvasConfig \<Rightarrow> int list" where
  "canvasToImageData stride pixels config = imageLoop stride pixels config 0 []"

subsection \<open>Canvas set-up\<close>

definition getCanvasConfig :: "ImageDimensions \<Rightarrow> PrintOptions \<Rightarrow> CanvasConfig" where
  "getCanvasConfig dims options =
     (let scaleFactor = real_of_int (dpi dims) / real_of_int STANDARD_DPI;
          width = (if width dims = 0 then 0xE3 else width dims);
          height = height dims * HEIGHT_MULTIPLIER;
          adjustedFontSize = js_round (PrintOptions.fontSize options * scaleFactor)
      in \<lparr> CanvasConfig.width = width, CanvasConfig.height = height,
           scaleFactor = scaleFactor, adjustedFontSize = adjustedFontSize \<rparr>)"

definition configureContext :: "Context2D \<Rightarrow> CanvasConfig \<Rightarrow> PrintOptions \<Rightarrow> Context2D" where
  "configureContext ctx config options =
     ctx @ [SetFillStyle WHITE,
            FillRect 0 0 (CanvasConfig.width config) (CanvasConfig.height config),
            SetFillStyle BLACK,
            SetFont (adjustedFontSize config) (PrintOptions.fontFamily options)]"

text \<open>
  \<^verbatim>\<open>setupCanvas\<close> creates the canvas with the size of the configuration; the result is the
  fresh context after \<^verbatim>\<open>configureContext\<close>, and the configuration. Registering the font
  file acts on the font system of the canvas library only and is left out.
\<close>

definition setupCanvas :: "ImageDimensions \<Rightarrow> PrintOptions \<Rightarrow> Context2D \<times> CanvasConfig" where
  "setupCanvas dims options =
     (let config = getCanvasConfig dims options
      in (configureContext [] config options, config))"

subsection \<open>Variable substitution\<close>

text \<open>\<^verbatim>\<open>String(value)\<close> of a variable value; an integer is printed in decimal.\<close>

definition digit_char :: "nat \<Rightarrow> char" where
  "digit_char n = char_of (48 + n)"

function nat_to_string :: "nat \<Rightarrow> string" where
  "nat_to_string n =
     (if n < 10 then [digit_char n] else nat_to_string (n div 10) @ [digit_char (n mod 10)])"
  by pat_completeness auto
termination
  by (relation "measure id") auto

declare nat_to_string.simps [simp del]

definition js_String :: "VariableValue \<Rightarrow> string" where
  "js_String v =
     (case v of
        VString s \<Rightarrow> s
      | VNumber i \<Rightarrow> if i < 0 then CHR ''-'' # nat_to_string (nat (- i)) else nat_to_string (nat i))"

text \<open>The exceptions that the rendering code can raise.\<close>

datatype JsError = SyntaxError | TypeError

text \<open>
  The regular expressions of the JavaScript runtime are a parameter of the model:
  \<open>regExp pattern\<close> is \<open>None\<close> when \<^verbatim>\<open>new RegExp(pattern, 'g')\<close> throws a \<^verbatim>\<open>SyntaxError\<close>,
  and otherwise \<open>Some replace\<close> with \<open>replace subject replacement\<close> the value of
  \<^verbatim>\<open>subject.replace(new RegExp(pattern, 'g'), replacement)\<close>, where metacharacters of the
  pattern and \<^verbatim>\<open>$\<close> patterns of the replacement have the meaning the runtime gives them.
\<close>

type_synonym RegExpEngine = "string \<Rightarrow> (string \<Rightarrow> string \<Rightarrow> string) option"

text \<open>
  The \<^verbatim>\<open>reduce\<close> of \<^verbatim>\<open>processVariables\<close> over the entries, from the accumulated \<open>result\<close>
  on. The key goes into the pattern unescaped; the regular expression is built before
  the value is converted.
\<close>

fun replaceEntries :: "RegExpEngine \<Rightarrow> string \<Rightarrow> Variables \<Rightarrow> JsError + string" where
  "replaceEntries regExp result [] = Inr result"
| "replaceEntries regExp result ((key, v) # rest) =
     (let placeholder = ''{{'' @ key @ ''}}''
      in case regExp placeholder of
           None \<Rightarrow> Inl SyntaxError
         | Some replace \<Rightarrow> replaceEntries regExp (replace result (js_String v)) rest)"

definition processVariables ::
  "RegExpEngine \<Rightarrow> string \<Rightarrow> Variables option \<Rightarrow> JsError + string" where
  "processVariables regExp content' vars =
     (case vars of
        None \<Rightarrow> Inr content'
      | Some entries \<Rightarrow> replaceEntries regExp content' entries)"

subsection \<open>Drawing the elements\<close>

text \<open>\<^verbatim>\<open>a || b\<close> on an optional string: \<^verbatim>\<open>undefined\<close> and the empty string are falsy.\<close>

definition or_default_string :: "string option \<Rightarrow> string \<Rightarrow> string" where
  "or_default_string a b = (case a of None \<Rightarrow> b | Some s \<Rightarrow> if s = [] then b else s)"

text \<open>The truth value of an optional flag: \<^verbatim>\<open>undefined\<close> is falsy.\<close>

definition truthy :: "bool option \<Rightarrow> bool" where
  "truthy a = (a = Some True)"

text \<open>
  \<^verbatim>\<open>renderTextElement\<close> substitutes the variables before its first call on the context, so
  an exception of the substitution leaves the context as it was.
\<close>

definition renderTextElement ::
  "RegExpEngine \<Rightarrow> Context2D \<Rightarrow> TextElement \<Rightarrow> CanvasConfig \<Rightarrow> Variables option
     \<Rightarrow> JsError + Context2D" where
  "renderTextElement regExp ctx element config vars =
     (case processVariables regExp (content element) vars of
        Inl err \<Rightarrow> Inl err
      | Inr content' \<Rightarrow>
          let fontSize' = (case TextElement.fontSize element of
                             None \<Rightarrow> adjustedFontSize config
                           | Some s \<Rightarrow> if s = 0 then adjustedFontSize config
                                       else js_round (s * scaleFactor config));
              fontFamily' = or_default_string (TextElement.fontFamily element) ''Arial'';
              x = js_round (pos_x (TextElement.position element) * scaleFactor config);
              y = js_round (pos_y (TextElement.position element) * scaleFactor config)
          in Inr (ctx @ [Save,
                         SetFont fontSize' fontFamily',
                         SetTextAlign (or_default_string (align element) ''left''),
                         SetFillStyle BLACK,
                         FillText content' x y,
                         Restore]))"

definition renderLineElement :: "Context2D \<Rightarrow> LineElement \<Rightarrow> CanvasConfig \<Rightarrow> Context2D" where
  "renderLineElement ctx element config =
     (let startX = js_round (pos_x (start element) * scaleFactor config);
          startY = js_round (pos_y (start element) * scaleFactor config);
          endX = js_round (pos_x (end' element) * scaleFactor config);
          endY = js_round (pos_y (end' element) * scaleFactor config)
      in ctx @ [Save,
                SetStrokeStyle BLACK,
                SetLineWidth (or_default (LineElement.width element) 1),
                BeginPath,
                MoveTo startX startY,
                LineTo endX endY,
                Stroke,
                Restore])"

definition renderRectangleElement ::
  "Context2D \<Rightarrow> RectangleElement \<Rightarrow> CanvasConfig \<Rightarrow> Context2D" where
  "renderRectangleElement ctx element config =
     (let x = js_round (pos_x (RectangleElement.position element) * scaleFactor config);
          y = js_round (pos_y (RectangleElement.position element) * scaleFactor config);
          w = js_round (RectangleElement.width element * scaleFactor config);
          h = js_round (RectangleElement.height element * scaleFactor config)
      in if truthy (RectangleElement.filled element)
         then ctx @ [Save, SetFillStyle BLACK, FillRect x y w h, Restore]
         else ctx @ [Save, SetStrokeStyle BLACK, StrokeRect x y w h, Restore])"

definition renderCircleElement ::
  "Context2D \<Rightarrow> CircleElement \<Rightarrow> CanvasConfig \<Rightarrow> Context2D" where
  "renderCircleElement ctx element config =
     (let centerX = js_round (pos_x (center element) * scaleFactor config);
          centerY = js_round (pos_y (center element) * scaleFactor config);
          r = js_round (radius element * scaleFactor config)
      in if truthy (CircleElement.filled element)
         then ctx @ [Save, BeginPath, Arc centerX centerY r 0 (2 * pi),
                     SetFillStyle BLACK, Fill, Restore]
         else ctx @ [Save, BeginPath, Arc centerX centerY r 0 (2 * pi),
                     SetStrokeStyle BLACK, Stroke, Restore])"

text \<open>The bounding box in pixels: the scaled \<^verbatim>\<open>bounds\<close> of the element, or the whole canvas.\<close>

record PixelBounds =
  px_x :: int
  px_y :: int
  px_width :: int
  px_height :: int

definition scaledBounds :: "Bounds option \<Rightarrow> CanvasConfig \<Rightarrow> PixelBounds" where
  "scaledBounds b config =
     (case b of
        Some bb \<Rightarrow> \<lparr> px_x = js_round (bounds_x bb * scaleFactor config),
                     px_y = js_round (bounds_y bb * scaleFactor config),
                     px_width = js_round (Bounds.width bb * scaleFactor config),
                     px_height = js_round (Bounds.height bb * scaleFactor config) \<rparr>
      | None \<Rightarrow> \<lparr> px_x = 0, px_y = 0,
                  px_width = CanvasConfig.width config,
                  px_height = CanvasConfig.height config \<rparr>)"

text \<open>
  The loops of the stripe and grid elements advance by the scaled spacing; with a spacing
  that is not positive they do not end, which is the value \<open>None\<close>.
\<close>

partial_function (option) horizontalStripes ::
  "PixelBounds \<Rightarrow> int \<Rightarrow> int \<Rightarrow> int \<Rightarrow> Context2D \<Rightarrow> Context2D option" where
  "horizontalStripes b spacing' stripeWidth y ctx =
     (if y < px_y b + px_height b then
        horizontalStripes b spacing' stripeWidth (y + spacing')
          (ctx @ [FillRect (px_x b) y (px_width b) (min stripeWidth (px_y b + px_height b - y))])
      else Some ctx)"

partial_function (option) verticalStripes ::
  "PixelBounds \<Rightarrow> int \<Rightarrow> int \<Rightarrow> int \<Rightarrow> Context2D \<Rightarrow> Context2D option" where
  "verticalStripes b spacing' stripeWidth x' ctx =
     (if x' < px_x b + px_width b then
        verticalStripes b spacing' stripeWidth (x' + spacing')
          (ctx @ [FillRect x' (px_y b) (min stripeWidth (px_x b + px_width b - x')) (px_height b)])
      else Some ctx)"

declare horizontalStripes.simps [code]
declare verticalStripes.simps [code]

definition renderStripeElement ::
  "Context2D \<Rightarrow> StripeElement \<Rightarrow> CanvasConfig \<Rightarrow> Context2D option" where
  "renderStripeElement ctx element config =
     (let b = scaledBounds (StripeElement.bounds element) config;
          spacing' = js_round (spacing element * scaleFactor config);
          stripeWidth = js_round (StripeElement.width element * scaleFactor config);
          ctx1 = ctx @ [Save, SetFillStyle BLACK]
      in map_option (\<lambda>ctx2. ctx2 @ [Restore])
           (if direction element = ''horizontal''
            then horizontalStripes b spacing' stripeWidth (px_y b) ctx1
            else verticalStripes b spacing' stripeWidth (px_x b) ctx1))"

partial_function (option) verticalLines ::
  "PixelBounds \<Rightarrow> int \<Rightarrow> int \<Rightarrow> Context2D \<Rightarrow> Context2D option" where
  "verticalLines b cellWidth' x' ctx =
     (if x' \<le> px_x b + px_width b then
        verticalLines b cellWidth' (x' + cellWidth')
          (ctx @ [BeginPath, MoveTo x' (px_y b), LineTo x' (px_y b + px_height b), Stroke])
      else Some ctx)"

partial_function (option) horizontalLines ::
  "PixelBounds \<Rightarrow> int \<Rightarrow> int \<Rightarrow> Context2D \<Rightarrow> Context2D option" where
  "horizontalLines b cellHeight' y ctx =
     (if y \<le> px_y b + px_height b then
        horizontalLines b cellHeight' (y + cellHeight')
          (ctx @ [BeginPath, MoveTo (px_x b) y, LineTo (px_x b + px_width b) y, Stroke])
      else Some ctx)"

declare verticalLines.simps [code]
declare horizontalLines.simps [code]

definition renderGridElement ::
  "Context2D \<Rightarrow> GridElement \<Rightarrow> CanvasConfig \<Rightarrow> Context2D option" where
  "renderGridElement ctx element config =
     (let ctx1 = ctx @ [Save, SetStrokeStyle BLACK,
                        SetLineWidth (or_default (lineWidth element) 1)];
          b = scaledBounds (GridElement.bounds element) config;
          cellWidth' = js_round (cellWidth element * scaleFactor config);
          cellHeight' = js_round (cellHeight element * scaleFactor config)
      in case verticalLines b cellWidth' (px_x b) ctx1 of
           None \<Rightarrow> None
         | Some ctx2 \<Rightarrow>
             (case horizontalLines b cellHeight' (px_y b) ctx2 of
                None \<Rightarrow> None
              | Some ctx3 \<Rightarrow> Some (ctx3 @ [Restore])))"

text \<open>
  \<^verbatim>\<open>renderElement\<close> dispatches on the tag; the default branch of the \<^verbatim>\<open>switch\<close> logs an
  error and draws nothing. Reading the tag of \<^verbatim>\<open>null\<close> throws. The result is \<open>None\<close> when a
  loop does not end, the exception when one is thrown (the context is then as before), and
  otherwise the context and the logger afterwards.
\<close>

definition renderElement ::
  "RegExpEngine \<Rightarrow> Context2D \<Rightarrow> Logger \<Rightarrow> RenderElement \<Rightarrow> CanvasConfig \<Rightarrow> Variables option
     \<Rightarrow> (JsError + Context2D \<times> Logger) option" where
  "renderElement regExp ctx logger element config vars =
     (case element of
        Text e \<Rightarrow> Some (case renderTextElement regExp ctx e config vars of
                           Inl err \<Rightarrow> Inl err
                         | Inr ctx' \<Rightarrow> Inr (ctx', logger))
      | Line e \<Rightarrow> Some (Inr (renderLineElement ctx e config, logger))
      | Rectangle e \<Rightarrow> Some (Inr (renderRectangleElement ctx e config, logger))
      | Circle e \<Rightarrow> Some (Inr (renderCircleElement ctx e config, logger))
      | Stripes e \<Rightarrow> map_option (\<lambda>ctx'. Inr (ctx', logger)) (renderStripeElement ctx e config)
      | Grid e \<Rightarrow> map_option (\<lambda>ctx'. Inr (ctx', logger)) (renderGridElement ctx e config)
      | Unknown tag \<Rightarrow> Some (Inr (ctx, logger @ [''Unknown element type: '' @ tag]))
      | NullEntry \<Rightarrow> Some (Inl TypeError))"

text \<open>
  \<^verbatim>\<open>element.type\<close> as the handler of the \<^verbatim>\<open>catch\<close> prints it; \<open>None\<close> when reading it
  throws.
\<close>

definition elementType :: "RenderElement \<Rightarrow> string option" where
  "elementType element =
     (case element of
        Text e \<Rightarrow> Some ''text''
      | Line e \<Rightarrow> Some ''line''
      | Rectangle e \<Rightarrow> Some ''rectangle''
      | Circle e \<Rightarrow> Some ''circle''
      | Stripes e \<Rightarrow> Some ''stripes''
      | Grid e \<Rightarrow> Some ''grid''
      | Unknown tag \<Rightarrow> Some tag
      | NullEntry \<Rightarrow> None)"

text \<open>
  \<^verbatim>\<open>template.elements.forEach\<close> in \<^verbatim>\<open>renderFromTemplate\<close>, from the element of index
  \<open>index\<close> on. An exception of \<^verbatim>\<open>renderElement\<close> is caught: the handler logs
  \<^verbatim>\<open>Failed to render element ${index + 1} (${element.type})\<close> and the loop goes on with the
  next element. For the entry \<^verbatim>\<open>null\<close> the handler itself throws while it builds the
  message, and that exception leaves the loop. The calls on the canvas are taken not to
  throw.
\<close>

fun renderElements ::
  "RegExpEngine \<Rightarrow> Context2D \<Rightarrow> Logger \<Rightarrow> CanvasConfig \<Rightarrow> nat \<Rightarrow> RenderElement list
     \<Rightarrow> Variables option \<Rightarrow> (JsError + Context2D \<times> Logger) option" where
  "renderElements regExp ctx logger config index [] vars = Some (Inr (ctx, logger))"
| "renderElements regExp ctx logger config index (element # rest) vars =
     (case renderElement regExp ctx logger element config vars of
        None \<Rightarrow> None
      | Some (Inr (ctx', logger')) \<Rightarrow>
          renderElements regExp ctx' logger' config (index + 1) rest vars
      | Some (Inl err) \<Rightarrow>
          (case elementType element of
             None \<Rightarrow> Some (Inl TypeError)
           | Some ty \<Rightarrow>
               renderElements regExp ctx
                 (logger @ [''Failed to render element '' @ nat_to_string (index + 1)
                            @ '' ('' @ ty @ '')''])
                 config (index + 1) rest vars))"

definition renderFromTemplate ::
  "RegExpEngine \<Rightarrow> Context2D \<Rightarrow> Logger \<Rightarrow> CanvasConfig \<Rightarrow> RenderTemplate \<Rightarrow> Variables option
     \<Rightarrow> (JsError + Context2D \<times> Logger) option" where
  "renderFromTemplate regExp ctx logger config t vars =
     renderElements regExp ctx logger config 0 (elements t) vars"

subsection \<open>Rendering a template\<close>

text \<open>
  The result of \<^verbatim>\<open>createImageFromJson\<close>, together with the context and the logger at the end.
  The raw pixel buffer of the canvas and its stride come from the canvas library, a parameter
  \<open>toBuffer\<close> that maps the size the canvas was created with and the calls made on its
  context to the stride and the bytes. Saving debug images does not affect the result. An
  exception that leaves \<^verbatim>\<open>renderFromTemplate\<close> leaves \<^verbatim>\<open>createImageFromJson\<close> as well.
\<close>

record JsonRenderResult =
  out_imageData :: "int list"
  out_config :: CanvasConfig
  out_context :: Context2D
  out_errorLog :: Logger

definition createImageFromJson ::
  "RegExpEngine \<Rightarrow> (int \<Rightarrow> int \<Rightarrow> Context2D \<Rightarrow> int \<times> int list) \<Rightarrow> ImageDimensions \<Rightarrow> Logger
     \<Rightarrow> JsonRenderOptions \<Rightarrow> (JsError + JsonRenderResult) option" where
  "createImageFromJson regExp toBuffer dims logger options =
     (let t = template options;
          effectiveDimensions =
            (case RenderTemplate.dimensions t of
               None \<Rightarrow> dims
             | Some td \<Rightarrow>
                 dims\<lparr> width := or_default (TemplateDimensions.width td) (width dims),
                       height := or_default (TemplateDimensions.height td) (height dims) \<rparr>);
          dummyOptions =
            \<lparr> firstLine = '''', secondLine = '''', thirdLine = None,
              fontSize = (case defaultFont t of
                            None \<Rightarrow> 12
                          | Some f \<Rightarrow> if size' f = 0 then 12 else size' f),
              fontFamily = (case defaultFont t of
                              None \<Rightarrow> ''Arial''
                            | Some f \<Rightarrow> if family f = [] then ''Arial'' else family f) \<rparr>;
          (ctx, conf) = setupCanvas effectiveDimensions dummyOptions
      in case renderFromTemplate regExp ctx logger conf t (variables options) of
           None \<Rightarrow> None
         | Some (Inl err) \<Rightarrow> Some (Inl err)
         | Some (Inr (ctx', logger')) \<Rightarrow>
             let (stride, pixels) = toBuffer (CanvasConfig.width conf) (CanvasConfig.height conf) ctx'
             in Some (Inr \<lparr> out_imageData = canvasToImageData stride pixels conf, out_config = conf,
                            out_context = ctx', out_errorLog = logger' \<rparr>))"

section \<open>Transmission controller (services/printerService.ts)\<close>

record ImageSplit =
  data :: "int list"
  dimensions :: ImageDimensions
  splitIndex :: int
  totalSplits :: int

text \<open>
  The state of a \<^verbatim>\<open>PrinterService\<close>: its configuration, the mutable protocol field,
  and the serial channel, represented by the sequence of byte arrays handed to
  \<^verbatim>\<open>port.write\<close> so far. Writes are taken to succeed (a rejected write aborts the run);
  logging and the timed delays leave this state unchanged.
\<close>

record PrinterService =
  config :: PrinterConfig
  protocol :: PrinterProtocol
  written :: "int list list"

definition MAX_PRINTER_WIDTH :: int where
  "MAX_PRINTER_WIDTH = 255"

definition writeData :: "PrinterService \<Rightarrow> int list \<Rightarrow> PrinterService" where
  "writeData svc bytes = svc\<lparr> written := written svc @ [bytes] \<rparr>"

definition getFirmwareVersion :: "PrinterService \<Rightarrow> PrinterService" where
  "getFirmwareVersion svc = writeData svc (firmwareRequest (protocol svc))"

text \<open>The \<^verbatim>\<open>for\<close> loop of \<^verbatim>\<open>calculateImageSplits\<close>, from \<open>splitIndex\<close> on.\<close>

function splitLoop ::
  "int list \<Rightarrow> ImageDimensions \<Rightarrow> int \<Rightarrow> int \<Rightarrow> ImageSplit list \<Rightarrow> ImageSplit list" where
  "splitLoop imageData imageDimensions splits i imageSplits =
     (if i < splits then
        let startPos = i * MAX_PRINTER_WIDTH * height imageDimensions;
            currentWidth = min MAX_PRINTER_WIDTH (width imageDimensions - i * MAX_PRINTER_WIDTH);
            splitDimensions = \<lparr> width = currentWidth, height = height imageDimensions,
                                dpi = dpi imageDimensions \<rparr>;
            splitImageData = js_slice imageData startPos
                               (startPos + currentWidth * height imageDimensions)
        in splitLoop imageData imageDimensions splits (i + 1)
             (imageSplits @ [\<lparr> data = splitImageData, dimensions = splitDimensions,
                                splitIndex = i, totalSplits = splits \<rparr>])
      else imageSplits)"
  by pat_completeness auto
termination
  by (relation "measure (\<lambda>(imageData, imageDimensions, splits, i, imageSplits). nat (splits - i))")
     auto

declare splitLoop.simps [simp del]

definition calculateImageSplits :: "int list \<Rightarrow> ImageDimensions \<Rightarrow> ImageSplit list" where
  "calculateImageSplits imageData imageDimensions =
     (let splits = \<lceil>real_of_int (width imageDimensions) / real_of_int MAX_PRINTER_WIDTH\<rceil>
      in splitLoop imageData imageDimensions splits 0 [])"

text \<open>
  The \<^verbatim>\<open>for\<close> loop of \<^verbatim>\<open>sendDataInPackets\<close>, from offset \<open>i\<close> on. With a packet
  size that is not positive the loop never ends, which is the value \<open>None\<close>. The numbers
  \<^verbatim>\<open>totalPackets\<close> and \<^verbatim>\<open>packetNumber\<close>, like the arguments \<^verbatim>\<open>splitNumber\<close> and
  \<^verbatim>\<open>totalSplits\<close>, are only passed to the logger.
\<close>

partial_function (option) packetLoop ::
  "int list \<Rightarrow> int \<Rightarrow> PrinterService \<Rightarrow> PrinterService option" where
  "packetLoop bytes i svc =
     (if i < int (length bytes) then
        let chunk = js_slice bytes i (i + packetSize (config svc))
        in packetLoop bytes (i + packetSize (config svc)) (writeData svc chunk)
      else Some svc)"

declare packetLoop.simps [code]

definition sendDataInPackets ::
  "PrinterService \<Rightarrow> int list \<Rightarrow> int \<Rightarrow> int \<Rightarrow> PrinterService option" where
  "sendDataInPackets svc bytes splitNumber totalSplits' = packetLoop bytes 0 svc"

definition sendImageSplit :: "PrinterService \<Rightarrow> ImageSplit \<Rightarrow> PrinterService option" where
  "sendImageSplit svc split =
     (let svc' = svc\<lparr> protocol := getPrinterProtocol (dimensions split) \<rparr>;
          message = prefix (protocol svc') @ data split
      in sendDataInPackets svc' message (splitIndex split + 1) (totalSplits split))"

text \<open>The \<^verbatim>\<open>for ... of\<close> loop of \<^verbatim>\<open>sendImageData\<close> over the splits.\<close>

fun sendSplits :: "PrinterService \<Rightarrow> ImageSplit list \<Rightarrow> PrinterService option" where
  "sendSplits svc [] = Some svc"
| "sendSplits svc (split # rest) =
     (case sendImageSplit svc split of None \<Rightarrow> None | Some svc' \<Rightarrow> sendSplits svc' rest)"

definition sendImageData ::
  "PrinterService \<Rightarrow> int list \<Rightarrow> ImageDimensions \<Rightarrow> PrinterService option" where
  "sendImageData svc imageData imageDimensions =
     (let imageSplits = calculateImageSplits imageData imageDimensions
      in case sendSplits svc imageSplits of
           None \<Rightarrow> None
         | Some svc' \<Rightarrow> Some (writeData svc' (postfix (protocol svc'))))"

section \<open>Notions used in the statements\<close>

text \<open>Cutting a list into consecutive pieces of \<open>n\<close> elements, the last one possibly shorter.\<close>

function chunksOf :: "nat \<Rightarrow> 'a list \<Rightarrow> 'a list list" where
  "chunksOf n xs = (if n = 0 \<or> xs = [] then [] else take n xs # chunksOf n (drop n xs))"
  by pat_completeness auto
termination
  by (relation "measure (\<lambda>(n, xs). length xs)") auto

declare chunksOf.simps [simp del]

text \<open>The split record that the body of the loop in \<^verbatim>\<open>calculateImageSplits\<close> builds at index \<open>i\<close>.\<close>

definition splitAtIndex :: "int list \<Rightarrow> ImageDimensions \<Rightarrow> int \<Rightarrow> int \<Rightarrow> ImageSplit" where
  "splitAtIndex bytes d splits i =
     \<lparr> data = js_slice bytes (i * MAX_PRINTER_WIDTH * height d)
                (i * MAX_PRINTER_WIDTH * height d
                 + min MAX_PRINTER_WIDTH (width d - i * MAX_PRINTER_WIDTH) * height d),
       dimensions = \<lparr> width = min MAX_PRINTER_WIDTH (width d - i * MAX_PRINTER_WIDTH),
                      height = height d, dpi = dpi d \<rparr>,
       splitIndex = i, totalSplits = splits \<rparr>"

text \<open>A printer service with a packet size of two bytes, for concrete instances.\<close>

definition demoService :: PrinterService where
  "demoService = \<lparr> config = \<lparr> portPath = ''COM3'', baudRate = 57600, packetSize = 2,
                                 exitDelay = 2000, packetDelay = 0 \<rparr>,
                    protocol = getPrinterProtocol (IMAGE_DIMENSIONS 203),
                    written = [] \<rparr>"

text \<open>The values assigned to \<^verbatim>\<open>ctx.lineWidth\<close> in a sequence of calls, in order.\<close>

fun lineWidths :: "Context2D \<Rightarrow> real list" where
  "lineWidths [] = []"
| "lineWidths (SetLineWidth w # rest) = w # lineWidths rest"
| "lineWidths (c # rest) = lineWidths rest"

text \<open>
  The first two steps of \<^verbatim>\<open>createImageFromJson\<close>: the base dimensions with the override of
  the template merged in, and the print options made up for the canvas set-up.
\<close>

definition effectiveDimensions :: "ImageDimensions \<Rightarrow> RenderTemplate \<Rightarrow> ImageDimensions" where
  "effectiveDimensions dims t =
     (case RenderTemplate.dimensions t of
        None \<Rightarrow> dims
      | Some td \<Rightarrow>
          dims\<lparr> width := or_default (TemplateDimensions.width td) (width dims),
                height := or_default (TemplateDimensions.height td) (height dims) \<rparr>)"

definition dummyOptions :: "RenderTemplate \<Rightarrow> PrintOptions" where
  "dummyOptions t =
     \<lparr> firstLine = '''', secondLine = '''', thirdLine = None,
       fontSize = (case defaultFont t of None \<Rightarrow> 12 | Some f \<Rightarrow> if size' f = 0 then 12 else size' f),
       fontFamily = (case defaultFont t of
                       None \<Rightarrow> ''Arial''
                     | Some f \<Rightarrow> if family f = [] then ''Arial'' else family f) \<rparr>"

text \<open>
  The loops of a stripe or grid element end when the scaled spacing, or the scaled cell
  width and height, are positive; the other elements have no loop.
\<close>

fun stepsPositive :: "real \<Rightarrow> RenderElement \<Rightarrow> bool" where
  "stepsPositive sf (Stripes e) = (0 < js_round (spacing e * sf))"
| "stepsPositive sf (Grid e) = (0 < js_round (cellWidth e * sf) \<and> 0 < js_round (cellHeight e * sf))"
| "stepsPositive sf e = True"

text \<open>
  The pixel size of the canvas of a result, the width and height of its configuration, for
  a call that returned one.
\<close>

definition canvasSize :: "(JsError + JsonRenderResult) option \<Rightarrow> (int \<times> int) option" where
  "canvasSize outcome =
     (case outcome of
        Some (Inr r) \<Rightarrow> Some (CanvasConfig.width (out_config r), CanvasConfig.height (out_config r))
      | _ \<Rightarrow> None)"

text \<open>
  Regular expressions on patterns without metacharacters. A placeholder such as
  \<^verbatim>\<open>{{name}}\<close>, of a key made of letters, compiles and matches exactly its own text, and a
  replacement without \<^verbatim>\<open>$\<close> is inserted as it is: every occurrence of the pattern,
  scanning from the left, is replaced. \<open>literalRegExp\<close> is the engine on such patterns
  and replacements; the concrete instances below call it on no others.
\<close>

fun is_prefix :: "string \<Rightarrow> string \<Rightarrow> bool" where
  "is_prefix [] s = True"
| "is_prefix (p # ps) [] = False"
| "is_prefix (p # ps) (c # cs) = (p = c \<and> is_prefix ps cs)"

function replace_all :: "string \<Rightarrow> string \<Rightarrow> string \<Rightarrow> string" where
  "replace_all placeholder replacement [] = []"
| "replace_all placeholder replacement (c # cs) =
     (if placeholder \<noteq> [] \<and> is_prefix placeholder (c # cs)
      then replacement @ replace_all placeholder replacement (drop (length placeholder - 1) cs)
      else c # replace_all placeholder replacement cs)"
  by pat_completeness auto
termination
  by (relation "measure (\<lambda>(placeholder, replacement, s). length s)") auto

definition literalRegExp :: RegExpEngine where
  "literalRegExp pattern = Some (\<lambda>subject replacement. replace_all pattern replacement subject)"

text \<open>
  An error message without its element number: the handler of \<^verbatim>\<open>renderFromTemplate\<close> numbers
  the element that failed, so the same failure carries another number when an element is
  inserted before it.
\<close>

definition is_digit :: "char \<Rightarrow> bool" where
  "is_digit c = (c \<in> set ''0123456789'')"

definition unnumbered :: "string \<Rightarrow> string" where
  "unnumbered message =
     (if is_prefix ''Failed to render element '' message
      then ''Failed to render element ''
           @ dropWhile is_digit (drop (length ''Failed to render element '') message)
      else message)"

text \<open>
  An outcome of rendering with a logger put in front of its messages, and two outcomes that
  are the same but for the element numbers in their messages: both do not end, both throw
  the same exception, or both return the same calls on the canvas and the same messages
  without their numbers.
\<close>

definition logPrefixed ::
  "Logger \<Rightarrow> (JsError + Context2D \<times> Logger) option \<Rightarrow> (JsError + Context2D \<times> Logger) option" where
  "logPrefixed logger outcome =
     (case outcome of
        None \<Rightarrow> None
      | Some (Inl err) \<Rightarrow> Some (Inl err)
      | Some (Inr (ctx, l)) \<Rightarrow> Some (Inr (ctx, logger @ l)))"

definition sameDrawing ::
  "(JsError + Context2D \<times> Logger) option \<Rightarrow> (JsError + Context2D \<times> Logger) option \<Rightarrow> bool" where
  "sameDrawing a b =
     (case a of
        None \<Rightarrow> b = None
      | Some (Inl err) \<Rightarrow> b = Some (Inl err)
      | Some (Inr (ctx, l)) \<Rightarrow>
          (case b of
             Some (Inr (ctx', l')) \<Rightarrow> ctx' = ctx \<and> map unnumbered l' = map unnumbered l
           | _ \<Rightarrow> False))"


text \<open>Concrete instances: a canvas configuration at a given DPI, a canvas library that
  returns an all-white buffer, and two templates.\<close>

definition demoConfig :: "int \<Rightarrow> CanvasConfig" where
  "demoConfig d = getCanvasConfig \<lparr> width = 0xE3, height = 0x11, dpi = d \<rparr>
                    \<lparr> firstLine = '''', secondLine = '''', thirdLine = None,
                      fontSize = 12, fontFamily = ''Arial'' \<rparr>"

definition blankBuffer :: "int \<Rightarrow> int \<Rightarrow> Context2D \<Rightarrow> int \<times> int list" where
  "blankBuffer w h ctx = (4 * w, replicate (nat (4 * w * h)) 255)"

definition emptyTemplate :: RenderTemplate where
  "emptyTemplate = \<lparr> name = ''empty'', description = None, dimensions = None,
                      defaultFont = None, elements = [] \<rparr>"

definition demoTemplate :: RenderTemplate where
  "demoTemplate =
     \<lparr> name = ''simple-text'', description = None,
       dimensions = Some \<lparr> TemplateDimensions.width = Some 384, TemplateDimensions.height = Some 0 \<rparr>,
       defaultFont = None,
       elements = [Text \<lparr> content = ''{{text}}'', position = \<lparr> pos_x = 10, pos_y = 20 \<rparr>,
                          fontSize = None, fontFamily = None, align = None \<rparr>] \<rparr>"

text \<open>
  The bit that \<^verbatim>\<open>canvasToImageData\<close> computes for the pixel in column \<open>x\<close> and row \<open>y\<close>, and
  the bits of the rows \<open>y\<close>, \<open>y - 1\<close>, ..., \<open>0\<close> of a column, in the order the inner loop
  visits them.
\<close>

definition pixelBit :: "int \<Rightarrow> int list \<Rightarrow> int \<Rightarrow> int \<Rightarrow> int" where
  "pixelBit stride pixels x y =
     (if buffer_get pixels (y * stride + x * 4) = Some WHITE_PIXEL_VALUE then 0 else 1)"

definition visited :: "int \<Rightarrow> int list \<Rightarrow> int \<Rightarrow> int \<Rightarrow> int list" where
  "visited stride pixels x y = map (\<lambda>j. pixelBit stride pixels x (y - int j)) [0..<nat (y + 1)]"

text \<open>
  The inner loop on the list of bits still to visit, and the bytes of a column of height
  \<open>h\<close>: one for each full group of eight bits visited, each group reversed as done by
  \<^verbatim>\<open>unshift\<close>.
\<close>

fun packBits :: "int list \<Rightarrow> int list \<Rightarrow> int list \<Rightarrow> int list" where
  "packBits [] bitChunk out = out"
| "packBits (b # bs) bitChunk out =
     (if length (b # bitChunk) = 8
      then packBits bs [] (out @ [bitArrayToByte (b # bitChunk)])
      else packBits bs (b # bitChunk) out)"

definition columnBytes :: "int \<Rightarrow> int list \<Rightarrow> int \<Rightarrow> int \<Rightarrow> int list" where
  "columnBytes stride pixels h x =
     map (\<lambda>k. bitArrayToByte (rev (take 8 (drop (8 * k) (visited stride pixels x (h - 1))))))
         [0..<nat h div 8]"

text \<open>
  A canvas one pixel wide and eight pixels high, four bytes per pixel, all white except for
  the pixel in the bottom row.
\<close>

definition columnCanvas :: "int list" where
  "columnCanvas = [255, 255, 255, 255,  255, 255, 255, 255,  255, 255, 255, 255,
                   255, 255, 255, 255,  255, 255, 255, 255,  255, 255, 255, 255,
                   255, 255, 255, 255,  0, 0, 0, 255]"

definition columnConfig :: CanvasConfig where
  "columnConfig = \<lparr> CanvasConfig.width = 1, CanvasConfig.height = 8,
                     scaleFactor = 1, adjustedFontSize = 12 \<rparr>"

section \<open>Packetization\<close>

lemma js_slice_nonneg:
  assumes "0 \<le> s" "0 \<le> e"
  shows "js_slice xs s e = take (nat (e - s)) (drop (nat s) xs)"
proof (cases "s \<le> int (length xs)")
  case True
  then have k: "min s (int (length xs)) = s" by simp
  show ?thesis
  proof (cases "e \<le> int (length xs)")
    case True
    then show ?thesis using assms k by (simp add: js_slice_def Let_def)
  next
    case False
    then have "length (drop (nat s) xs) \<le> nat (e - s)" "length (drop (nat s) xs) \<le> nat (int (length xs) - s)"
      using assms by auto
    then show ?thesis using assms k False by (simp add: js_slice_def Let_def)
  qed
next
  case False
  then have "drop (nat s) xs = []" "drop (length xs) xs = []" by auto
  then show ?thesis using assms False by (simp add: js_slice_def Let_def)
qed

lemma chunksOf_Nil [simp]: "chunksOf n [] = []"
  by (simp add: chunksOf.simps)

lemma chunksOf_step: "0 < n \<Longrightarrow> xs \<noteq> [] \<Longrightarrow> chunksOf n xs = take n xs # chunksOf n (drop n xs)"
  by (subst chunksOf.simps) simp

lemma concat_chunksOf: "0 < n \<Longrightarrow> concat (chunksOf n xs) = xs"
proof (induction n xs rule: chunksOf.induct)
  case (1 n xs)
  then show ?case by (cases "xs = []") (simp_all add: chunksOf_step)
qed

lemma length_chunksOf: "0 < n \<Longrightarrow> length (chunksOf n xs) = (length xs + n - 1) div n"
proof (induction n xs rule: chunksOf.induct)
  case (1 n xs)
  show ?case
  proof (cases "xs = []")
    case True
    with 1 show ?thesis by simp
  next
    case False
    then have len: "0 < length xs" by simp
    have rec: "length (chunksOf n xs) = Suc ((length xs - n + n - 1) div n)"
      using 1 False by (simp add: chunksOf_step)
    show ?thesis
    proof (cases "n \<le> length xs")
      case True
      then have "length xs + n - 1 = (length xs - n + n - 1) + n"
        using \<open>0 < n\<close> by linarith
      then have "(length xs + n - 1) div n = ((length xs - n + n - 1) + n) div n"
        by (rule arg_cong)
      also have "\<dots> = Suc ((length xs - n + n - 1) div n)"
        using \<open>0 < n\<close> by (simp only: div_add_self2)
      finally show ?thesis using rec by (simp only:)
    next
      case False
      then have a: "(length xs - n + n - 1) div n = 0"
        using \<open>0 < n\<close> by (intro div_less) linarith
      have "n \<le> length xs + n - 1" "length xs + n - 1 < n + n"
        using False len by linarith+
      then have "n * 1 \<le> length xs + n - 1" "length xs + n - 1 < n * Suc 1"
        by simp_all
      then have "(length xs + n - 1) div n = 1"
        by (rule div_nat_eqI)
      then show ?thesis using rec a by simp
    qed
  qed
qed

lemma nth_chunksOf:
  "0 < n \<Longrightarrow> k < length (chunksOf n xs) \<Longrightarrow> chunksOf n xs ! k = take n (drop (k * n) xs)"
proof (induction n xs arbitrary: k rule: chunksOf.induct)
  case (1 n xs)
  from "1.prems" have ne: "xs \<noteq> []" by auto
  show ?case
  proof (cases k)
    case 0
    then show ?thesis using 1 ne by (simp add: chunksOf_step)
  next
    case (Suc j)
    then have "j < length (chunksOf n (drop n xs))" using "1.prems" ne by (simp add: chunksOf_step)
    then have "chunksOf n (drop n xs) ! j = take n (drop (j * n) (drop n xs))"
      using "1.IH" "1.prems" ne by simp
    then show ?thesis using Suc "1.prems" ne by (simp add: chunksOf_step add.commute)
  qed
qed

lemma packetLoop_chunks:
  assumes "0 < packetSize (config svc)" "0 \<le> i"
  shows "packetLoop bytes i svc =
           Some (svc\<lparr> written := written svc @ chunksOf (nat (packetSize (config svc))) (drop (nat i) bytes) \<rparr>)"
  using assms
proof (induction "length bytes - nat i" arbitrary: i svc rule: less_induct)
  case less
  let ?P = "packetSize (config svc)"
  show ?case
  proof (cases "i < int (length bytes)")
    case False
    then have "drop (nat i) bytes = []" by simp
    then show ?thesis using False by (subst packetLoop.simps) simp
  next
    case True
    let ?svc' = "writeData svc (js_slice bytes i (i + ?P))"
    have cfg: "config ?svc' = config svc" by (simp add: writeData_def)
    have wr: "written ?svc' = written svc @ [js_slice bytes i (i + ?P)]"
      by (simp add: writeData_def)
    have "length bytes - nat (i + ?P) < length bytes - nat i"
      using True less.prems by linarith
    moreover have "0 < packetSize (config ?svc')" "0 \<le> i + ?P"
      using less.prems cfg by simp_all
    ultimately have IH: "packetLoop bytes (i + ?P) ?svc' =
        Some (?svc'\<lparr> written := written ?svc' @
           chunksOf (nat (packetSize (config ?svc'))) (drop (nat (i + ?P)) bytes) \<rparr>)"
      by (rule less.hyps)
    have ne: "drop (nat i) bytes \<noteq> []" using True less.prems by simp
    have sl: "js_slice bytes i (i + ?P) = take (nat ?P) (drop (nat i) bytes)"
      using less.prems js_slice_nonneg [of i "i + ?P" bytes] by simp
    have "nat (i + ?P) = nat ?P + nat i"
      using less.prems by linarith
    then have dr: "drop (nat (i + ?P)) bytes = drop (nat ?P) (drop (nat i) bytes)"
      by (simp only: drop_drop)
    have step: "packetLoop bytes i svc = packetLoop bytes (i + ?P) ?svc'"
      using True by (subst packetLoop.simps) (simp add: Let_def)
    have ch: "chunksOf (nat ?P) (drop (nat i) bytes) =
                take (nat ?P) (drop (nat i) bytes) # chunksOf (nat ?P) (drop (nat ?P) (drop (nat i) bytes))"
      using less.prems ne by (intro chunksOf_step) simp_all
    have "?svc'\<lparr> written := written ?svc' @
           chunksOf (nat (packetSize (config ?svc'))) (drop (nat (i + ?P)) bytes) \<rparr>
         = svc\<lparr> written := written svc @ chunksOf (nat ?P) (drop (nat i) bytes) \<rparr>"
      unfolding cfg wr ch dr sl by (simp add: writeData_def)
    then show ?thesis using step IH by (simp only:)
  qed
qed

lemma ceiling_div_int:
  assumes "0 < (b::int)"
  shows "\<lceil>real_of_int a / real_of_int b\<rceil> = (a + b - 1) div b"
proof -
  define q where "q = (a + b - 1) div b"
  define r where "r = (a + b - 1) mod b"
  have r: "0 \<le> r" "r < b" using assms by (simp_all add: r_def)
  have "a + b - 1 = b * q + r" by (simp add: q_def r_def)
  then have "- a = b * (- q) + (b - 1 - r)" by simp
  moreover have "0 \<le> b - 1 - r" "b - 1 - r < b" using r by simp_all
  ultimately have "(- a) div b = - q" by (rule int_div_pos_eq)
  then show ?thesis by (simp add: ceiling_divide_eq_div q_def)
qed

lemma pred_mod_Suc:
  assumes "0 < n" "0 < (L::nat)"
  shows "Suc ((L - 1) mod n) = (if L mod n = 0 then n else L mod n)"
  by (metis One_nat_def Suc_pred assms(2) mod_Suc neq0_conv zero_less_Suc)

lemma ceil_div_pred:
  assumes "0 < n" "0 < (L::nat)"
  shows "(L + n - 1) div n = Suc ((L - 1) div n)"
proof -
  have "L + n - 1 = (L - 1) + n" using assms by linarith
  then have "(L + n - 1) div n = ((L - 1) + n) div n" by (rule arg_cong)
  also have "\<dots> = Suc ((L - 1) div n)" using assms by (simp only: div_add_self2)
  finally show ?thesis .
qed

lemma last_chunk_arith:
  assumes "0 < n" "0 < (L::nat)"
  shows "L - ((L + n - 1) div n - 1) * n = Suc ((L - 1) mod n)"
proof -
  have "(L - 1) div n * n \<le> L - 1" by simp
  then have "L - (L - 1) div n * n = Suc (L - 1 - (L - 1) div n * n)"
    using assms by linarith
  also have "\<dots> = Suc ((L - 1) mod n)" by (simp only: minus_div_mult_eq_mod)
  finally have "L - (L - 1) div n * n = Suc ((L - 1) mod n)" .
  moreover have "(L + n - 1) div n - 1 = (L - 1) div n"
    unfolding ceil_div_pred [OF assms] by simp
  ultimately show ?thesis by (simp only:)
qed

lemma inner_chunk_arith:
  assumes "0 < n" "Suc k < ((L::nat) + n - 1) div n"
  shows "k * n + n < L"
proof -
  from assms(2) have "Suc (Suc k) \<le> (L + n - 1) div n" by simp
  then have "Suc (Suc k) * n \<le> L + n - 1"
    using assms(1) by (simp only: less_eq_div_iff_mult_less_eq)
  then have "k * n + n + n \<le> L + n - 1" by simp
  then show ?thesis using assms(1) by linarith
qed

text \<open>
  Claim C3. For a positive packet size \<open>P\<close> and a message of length \<open>L\<close>,
  \<^verbatim>\<open>sendDataInPackets\<close> returns after appending \<open>\<lceil>L / P\<rceil>\<close> writes to the channel; the
  written packets concatenated in order are the message; every packet but the last has
  length \<open>P\<close>; and the last has length \<open>L mod P\<close>, or \<open>P\<close> when \<open>P\<close> divides \<open>L\<close>.
\<close>

theorem sendDataInPackets_packets:
  assumes "0 < packetSize (config svc)"
  shows "\<exists>pkts. sendDataInPackets svc msg splitNumber nSplits
                   = Some (svc\<lparr> written := written svc @ pkts \<rparr>)
      \<and> int (length pkts) = \<lceil>real (length msg) / real_of_int (packetSize (config svc))\<rceil>
      \<and> concat pkts = msg
      \<and> (\<forall>k. Suc k < length pkts \<longrightarrow> int (length (pkts ! k)) = packetSize (config svc))
      \<and> (pkts \<noteq> [] \<longrightarrow> int (length (last pkts)) =
            (if int (length msg) mod packetSize (config svc) = 0 then packetSize (config svc)
             else int (length msg) mod packetSize (config svc)))"
proof -
  let ?P = "packetSize (config svc)"
  define n where "n = nat ?P"
  define pkts where "pkts = chunksOf n msg"
  have n: "0 < n" "int n = ?P" using assms by (simp_all add: n_def)
  have len: "length pkts = (length msg + n - 1) div n"
    using n by (simp add: pkts_def length_chunksOf)
  have run: "sendDataInPackets svc msg splitNumber nSplits = Some (svc\<lparr> written := written svc @ pkts \<rparr>)"
    using packetLoop_chunks [OF assms, of 0 msg] by (simp add: sendDataInPackets_def pkts_def n_def)
  have "\<lceil>real (length msg) / real_of_int ?P\<rceil> = (int (length msg) + ?P - 1) div ?P"
    using ceiling_div_int [OF assms, of "int (length msg)"] by simp
  also have "\<dots> = int ((length msg + n - 1) div n)"
    using n by (simp add: zdiv_int of_nat_diff) 
  finally have count: "int (length pkts) = \<lceil>real (length msg) / real_of_int ?P\<rceil>"
    using len by simp
  have cat: "concat pkts = msg" using n by (simp add: pkts_def concat_chunksOf)
  have nth: "length (pkts ! k) = min n (length msg - k * n)" if "k < length pkts" for k
    using that n nth_chunksOf [of n k msg] by (simp add: pkts_def)
  have inner: "int (length (pkts ! k)) = ?P" if "Suc k < length pkts" for k
  proof -
    have "k * n + n < length msg" using that len n inner_chunk_arith by simp
    then have "min n (length msg - k * n) = n" by simp
    then show ?thesis using nth [of k] that n by simp
  qed
  have final: "int (length (last pkts)) =
            (if int (length msg) mod ?P = 0 then ?P else int (length msg) mod ?P)" if "pkts \<noteq> []"
  proof -
    from that have pos: "0 < length pkts" by simp
    have L: "0 < length msg" using that by (cases msg) (auto simp: pkts_def)
    have "last pkts = pkts ! (length pkts - 1)" using that by (rule last_conv_nth)
    then have "length (last pkts) = min n (length msg - (length pkts - 1) * n)"
      using nth [of "length pkts - 1"] pos by simp
    also have "\<dots> = min n (Suc ((length msg - 1) mod n))"
      using last_chunk_arith [OF n(1) L] len by simp
    also have "\<dots> = Suc ((length msg - 1) mod n)"
      using n(1) by (simp add: Suc_leI)
    also have "\<dots> = (if length msg mod n = 0 then n else length msg mod n)"
      using n(1) L by (rule pred_mod_Suc)
    finally have "length (last pkts) = (if length msg mod n = 0 then n else length msg mod n)" .
    moreover have "int (length msg) mod ?P = int (length msg mod n)"
      using n by (simp add: zmod_int)
    ultimately show ?thesis using n by simp
  qed
  show ?thesis
    using run count cat inner final by blast
qed

theorem sendDataInPackets_packets_witness:
  "0 < packetSize (config demoService) \<and>
   (\<exists>pkts. sendDataInPackets demoService [1, 2, 3, 4, 5] 1 1
                   = Some (demoService\<lparr> written := written demoService @ pkts \<rparr>)
      \<and> int (length pkts) = 3
      \<and> concat pkts = [1, 2, 3, 4, 5]
      \<and> int (length (pkts ! 0)) = 2
      \<and> int (length (pkts ! 1)) = 2
      \<and> int (length (last pkts)) = 1)"
proof -
  have h: "0 < packetSize (config demoService)" by (simp add: demoService_def)
  from sendDataInPackets_packets [OF h, of "[1, 2, 3, 4, 5]" 1 1]
  obtain pkts where
    p: "sendDataInPackets demoService [1, 2, 3, 4, 5] 1 1
          = Some (demoService\<lparr> written := written demoService @ pkts \<rparr>)"
       "int (length pkts) = 3" "concat pkts = [1, 2, 3, 4, 5]"
       "\<forall>k. Suc k < length pkts \<longrightarrow> int (length (pkts ! k)) = 2"
       "pkts \<noteq> [] \<longrightarrow> int (length (last pkts)) = 1"
    by (auto simp: demoService_def)
  from p(2) have "length pkts = 3" by simp
  with p(4) p(5) have "int (length (pkts ! 0)) = 2" "int (length (pkts ! 1)) = 2"
    "int (length (last pkts)) = 1" by auto
  with h p(1-3) show ?thesis by blast
qed

section \<open>Image splitting\<close>

lemma splitLoop_map:
  "splitLoop bytes d splits (int k) acc
     = acc @ map (\<lambda>i. splitAtIndex bytes d splits (int i)) [k..<nat splits]"
proof (induction "nat splits - k" arbitrary: k acc)
  case 0
  then have "\<not> int k < splits" "[k..<nat splits] = []" by simp_all
  then show ?case by (subst splitLoop.simps) simp
next
  case (Suc m)
  then have lt: "int k < splits" "k < nat splits" by linarith+
  have m: "m = nat splits - Suc k" using Suc.hyps(2) by simp
  have up: "[k..<nat splits] = k # [Suc k..<nat splits]"
    using lt by (simp add: upt_conv_Cons)
  have "splitLoop bytes d splits (int k) acc
          = splitLoop bytes d splits (int (Suc k)) (acc @ [splitAtIndex bytes d splits (int k)])"
    using lt by (subst splitLoop.simps) (simp add: Let_def splitAtIndex_def add.commute)
  also have "\<dots> = (acc @ [splitAtIndex bytes d splits (int k)])
                     @ map (\<lambda>i. splitAtIndex bytes d splits (int i)) [Suc k..<nat splits]"
    using m by (rule Suc.hyps(1))
  finally show ?case unfolding up by simp
qed

lemma calculateImageSplits_map:
  "calculateImageSplits bytes d =
     map (\<lambda>i. splitAtIndex bytes d \<lceil>real_of_int (width d) / 255\<rceil> (int i))
         [0..<nat \<lceil>real_of_int (width d) / 255\<rceil>]"
proof -
  have "splitLoop bytes d \<lceil>real_of_int (width d) / 255\<rceil> (int 0) [] =
     [] @ map (\<lambda>i. splitAtIndex bytes d \<lceil>real_of_int (width d) / 255\<rceil> (int i))
         [0..<nat \<lceil>real_of_int (width d) / 255\<rceil>]"
    by (rule splitLoop_map)
  then show ?thesis
    by (simp add: calculateImageSplits_def MAX_PRINTER_WIDTH_def)
qed

lemma concat_take_drop_offsets:
  fixes off :: "nat \<Rightarrow> nat"
  assumes "off 0 = 0" "\<And>i. i < n \<Longrightarrow> off i \<le> off (Suc i)"
  shows "concat (map (\<lambda>i. take (off (Suc i) - off i) (drop (off i) xs)) [0..<n]) = take (off n) xs"
  using assms(2)
proof (induction n)
  case 0
  then show ?case using assms(1) by simp
next
  case (Suc n)
  then have IH: "concat (map (\<lambda>i. take (off (Suc i) - off i) (drop (off i) xs)) [0..<n]) = take (off n) xs"
    by simp
  have le: "off n \<le> off (Suc n)" using Suc.prems by simp
  have "take (off (Suc n)) xs = take (off n + (off (Suc n) - off n)) xs" using le by simp
  also have "\<dots> = take (off n) xs @ take (off (Suc n) - off n) (drop (off n) xs)"
    by (rule take_add)
  finally show ?case using IH by simp
qed

lemma sum_list_telescope:
  fixes f :: "nat \<Rightarrow> int"
  shows "(\<Sum>i\<leftarrow>[0..<n]. f (Suc i) - f i) = f n - f 0"
  by (induction n) simp_all


lemma ceil255_bounds:
  fixes W :: int
  defines "q \<equiv> \<lceil>real_of_int W / 255\<rceil>"
  shows "W \<le> 255 * q" "255 * q \<le> W + 254"
proof -
  have q: "q = (W + 254) div 255"
    using ceiling_div_int [of 255 W] by (simp add: q_def)
  have "255 * ((W + 254) div 255) + (W + 254) mod 255 = W + 254" by simp
  moreover have "0 \<le> (W + 254) mod 255" "(W + 254) mod 255 < 255" by simp_all
  ultimately show "W \<le> 255 * q" "255 * q \<le> W + 254" unfolding q by linarith+
qed

text \<open>
  Claim C1. For a packed byte sequence of length \<open>width * height\<close> with \<open>width > 255\<close>,
  \<^verbatim>\<open>calculateImageSplits\<close> produces \<open>\<lceil>width / 255\<rceil>\<close> splits whose widths sum to
  \<open>width\<close>; the split data concatenated in index order is the original sequence; and split
  \<open>i\<close> is the byte range that starts at \<open>i * 255 * height\<close> and has length
  \<open>min 255 (width - i * 255) * height\<close>.
\<close>

theorem calculateImageSplits_correct:
  assumes "255 < width d" and "int (length bytes) = width d * height d"
  shows "int (length (calculateImageSplits bytes d)) = \<lceil>real_of_int (width d) / 255\<rceil>
       \<and> (\<Sum>s\<leftarrow>calculateImageSplits bytes d. width (dimensions s)) = width d
       \<and> concat (map data (calculateImageSplits bytes d)) = bytes
       \<and> (\<forall>i < length (calculateImageSplits bytes d).
             data (calculateImageSplits bytes d ! i)
               = take (nat (min 255 (width d - int i * 255) * height d))
                      (drop (nat (int i * 255 * height d)) bytes)
           \<and> int (length (data (calculateImageSplits bytes d ! i)))
               = min 255 (width d - int i * 255) * height d
           \<and> width (dimensions (calculateImageSplits bytes d ! i))
               = min 255 (width d - int i * 255)
           \<and> height (dimensions (calculateImageSplits bytes d ! i)) = height d
           \<and> splitIndex (calculateImageSplits bytes d ! i) = int i
           \<and> totalSplits (calculateImageSplits bytes d ! i) = \<lceil>real_of_int (width d) / 255\<rceil>)"
proof -
  let ?W = "width d" and ?H = "height d"
  define q where "q = \<lceil>real_of_int ?W / 255\<rceil>"
  define n where "n = nat q"
  define S where "S = calculateImageSplits bytes d"
  define cw where "cw i = min 255 (?W - int i * 255)" for i
  define off where "off i = nat (min (int i * 255) ?W * ?H)" for i
  have qb: "?W \<le> 255 * q" "255 * q \<le> ?W + 254"
    unfolding q_def by (rule ceil255_bounds)+
  have qpos: "0 < q" using qb assms(1) by linarith
  have nq: "int n = q" using qpos by (simp add: n_def)
  have H: "0 \<le> ?H"
  proof (rule ccontr)
    assume "\<not> 0 \<le> ?H"
    then have "?W * ?H < 0" using assms(1) by (simp add: mult_less_0_iff)
    then show False using assms(2) by linarith
  qed
  have S: "S = map (\<lambda>i. splitAtIndex bytes d q (int i)) [0..<n]"
    unfolding S_def q_def n_def by (rule calculateImageSplits_map)
  have lenS: "length S = n" by (simp add: S)
  have in_range: "int i * 255 < ?W" if "i < n" for i
  proof -
    from that have "int i + 1 \<le> q" using nq by linarith
    then show ?thesis using qb by linarith
  qed
  have cw_pos: "0 < cw i" if "i < n" for i
    using in_range [OF that] by (simp add: cw_def)
  have off0: "off 0 = 0" using assms(1) by (simp add: off_def)
  have offn: "off n = length bytes"
  proof -
    have "min (int n * 255) ?W = ?W" using qb nq by simp
    then show ?thesis using assms(2) by (simp add: off_def)
  qed
  have off_i: "off i = nat (int i * 255 * ?H)" if "i < n" for i
    using in_range [OF that] by (simp add: off_def min_def)
  have off_Suc: "off (Suc i) = nat (int i * 255 * ?H) + nat (cw i * ?H)" if "i < n" for i
  proof -
    have "min (int (Suc i) * 255) ?W = int i * 255 + cw i"
      by (simp add: cw_def min_def)
    then have "off (Suc i) = nat (int i * 255 * ?H + cw i * ?H)"
      by (simp add: off_def algebra_simps)
    also have "\<dots> = nat (int i * 255 * ?H) + nat (cw i * ?H)"
      using H cw_pos [OF that] by (intro nat_add_distrib) simp_all
    finally show ?thesis .
  qed
  have off_mono: "off i \<le> off (Suc i)" if "i < n" for i
    using off_i [OF that] off_Suc [OF that] by simp
  have off_diff: "off (Suc i) - off i = nat (cw i * ?H)" if "i < n" for i
    using off_i [OF that] off_Suc [OF that] by simp
  have off_le: "off (Suc i) \<le> length bytes" if "i < n" for i
  proof -
    have "min (int (Suc i) * 255) ?W * ?H \<le> ?W * ?H"
      using H by (intro mult_right_mono) simp_all
    then show ?thesis using assms(2) by (simp add: off_def)
  qed
  have data_i: "data (splitAtIndex bytes d q (int i)) = take (nat (cw i * ?H)) (drop (nat (int i * 255 * ?H)) bytes)"
    if "i < n" for i
  proof -
    have "0 \<le> int i * 255 * ?H" "0 \<le> int i * 255 * ?H + cw i * ?H"
      using H cw_pos [OF that] by simp_all
    then have "js_slice bytes (int i * 255 * ?H) (int i * 255 * ?H + cw i * ?H)
                 = take (nat (cw i * ?H)) (drop (nat (int i * 255 * ?H)) bytes)"
      by (simp add: js_slice_nonneg)
    then show ?thesis by (simp add: splitAtIndex_def MAX_PRINTER_WIDTH_def cw_def)
  qed
  have data_off: "data (splitAtIndex bytes d q (int i)) = take (off (Suc i) - off i) (drop (off i) bytes)"
    if "i < n" for i
    using data_i [OF that] off_i [OF that] off_diff [OF that] by simp
  have "map data S = map (\<lambda>i. take (off (Suc i) - off i) (drop (off i) bytes)) [0..<n]"
    unfolding S by (simp add: data_off)
  then have "concat (map data S) = take (off n) bytes"
    using concat_take_drop_offsets [of off n bytes] off0 off_mono by simp
  then have cat: "concat (map data S) = bytes" using offn by simp
  have count: "int (length S) = q" using lenS nq by simp
  define m where "m i = min (int i * 255) ?W" for i
  have "map (\<lambda>s. width (dimensions s)) S = map (\<lambda>i. m (Suc i) - m i) [0..<n]"
  proof -
    have "width (dimensions (splitAtIndex bytes d q (int i))) = m (Suc i) - m i" if "i < n" for i
      using in_range [OF that] by (simp add: splitAtIndex_def MAX_PRINTER_WIDTH_def m_def min_def)
    then show ?thesis unfolding S by simp
  qed
  then have "(\<Sum>s\<leftarrow>S. width (dimensions s)) = m n - m 0"
    using sum_list_telescope [of m n] by simp
  also have "\<dots> = ?W" using qb nq assms(1) by (simp add: m_def)
  finally have widths: "(\<Sum>s\<leftarrow>S. width (dimensions s)) = ?W" .
  have each: "data (S ! i) = take (nat (cw i * ?H)) (drop (nat (int i * 255 * ?H)) bytes)
           \<and> int (length (data (S ! i))) = cw i * ?H
           \<and> width (dimensions (S ! i)) = cw i
           \<and> height (dimensions (S ! i)) = ?H
           \<and> splitIndex (S ! i) = int i
           \<and> totalSplits (S ! i) = q" if "i < length S" for i
  proof -
    from that have i: "i < n" using lenS by simp
    have Si: "S ! i = splitAtIndex bytes d q (int i)" using i by (simp add: S)
    have "nat (int i * 255 * ?H) + nat (cw i * ?H) \<le> length bytes"
      using off_le [OF i] off_Suc [OF i] by simp
    then have "length (take (nat (cw i * ?H)) (drop (nat (int i * 255 * ?H)) bytes)) = nat (cw i * ?H)"
      by simp
    moreover have "0 \<le> cw i * ?H" using H cw_pos [OF i] by simp
    ultimately have "int (length (data (S ! i))) = cw i * ?H"
      using data_i [OF i] Si by simp
    then show ?thesis
      using data_i [OF i] Si by (simp add: splitAtIndex_def MAX_PRINTER_WIDTH_def cw_def)
  qed
  show ?thesis
    using count widths cat each unfolding S_def q_def cw_def by blast
qed

theorem calculateImageSplits_correct_witness:
  "255 < width \<lparr> width = 256, height = 1, dpi = 203 \<rparr>
   \<and> int (length (replicate 256 (7::int))) = width \<lparr> width = 256, height = 1, dpi = 203 \<rparr>
         * height \<lparr> width = 256, height = 1, dpi = 203 \<rparr>
   \<and> int (length (calculateImageSplits (replicate 256 7) \<lparr> width = 256, height = 1, dpi = 203 \<rparr>)) = 2
   \<and> concat (map data (calculateImageSplits (replicate 256 7) \<lparr> width = 256, height = 1, dpi = 203 \<rparr>))
       = replicate 256 7"
  using calculateImageSplits_correct [of "\<lparr> width = 256, height = 1, dpi = 203 \<rparr>" "replicate 256 7"]
  by simp

section \<open>Protocol framing\<close>

lemma to_int32_id: "- 2147483648 \<le> a \<Longrightarrow> a < 2147483648 \<Longrightarrow> to_int32 a = a"
  by (simp add: to_int32_def signed_take_bit_int_eq_self_iff)

lemma js_sar_8: "0 \<le> a \<Longrightarrow> a < 65536 \<Longrightarrow> js_sar a 8 = a div 256"
  by (simp add: js_sar_def to_int32_id drop_bit_eq_div)

lemma js_and_255: "0 \<le> a \<Longrightarrow> a < 65536 \<Longrightarrow> js_and a 255 = a mod 256"
proof -
  assume "0 \<le> a" "a < 65536"
  then have "js_and a 255 = a AND mask 8" by (simp add: js_and_def to_int32_id mask_eq_exp_minus_1)
  also have "\<dots> = a mod 256" by (simp add: take_bit_eq_mask [symmetric] take_bit_eq_mod)
  finally show ?thesis .
qed

text \<open>
  Claim C4. For dimensions with \<open>0 \<le> height < 65536\<close> and \<open>0 \<le> width < 65536\<close>,
  \<^verbatim>\<open>getPrinterProtocol\<close> returns the fixed 4-byte firmware request, a 16-byte prefix made
  of the fixed 11-byte header, the height as two bytes with the high byte first, the width
  likewise, and a final zero byte, and the fixed 7-byte postfix.
\<close>

theorem getPrinterProtocol_layout:
  assumes "0 \<le> height d" "height d < 65536" "0 \<le> width d" "width d < 65536"
  shows "firmwareRequest (getPrinterProtocol d) = [0x10, 0xFF, 0x20, 0xF1]
       \<and> prefix (getPrinterProtocol d) =
           [0x10, 0xFF, 0xFE, 0x01, 0x10, 0xFF, 0xFE, 0x40, 0x1D, 0x76, 0x30]
           @ [height d div 256, height d mod 256] @ [width d div 256, width d mod 256] @ [0]
       \<and> length (prefix (getPrinterProtocol d)) = 16
       \<and> 256 * (prefix (getPrinterProtocol d) ! 11) + prefix (getPrinterProtocol d) ! 12 = height d
       \<and> 256 * (prefix (getPrinterProtocol d) ! 13) + prefix (getPrinterProtocol d) ! 14 = width d
       \<and> (\<forall>b \<in> set (prefix (getPrinterProtocol d)). 0 \<le> b \<and> b < 256)
       \<and> postfix (getPrinterProtocol d) = [0x1B, 0x4A, 0x40, 0x10, 0xFF, 0xFE, 0x45]"
proof -
  have h: "js_sar (height d) 8 = height d div 256" "js_and (height d) 255 = height d mod 256"
    using assms by (simp_all add: js_sar_8 js_and_255)
  have w: "js_sar (width d) 8 = width d div 256" "js_and (width d) 255 = width d mod 256"
    using assms by (simp_all add: js_sar_8 js_and_255)
  have b: "0 \<le> height d div 256" "height d div 256 < 256" "0 \<le> width d div 256" "width d div 256 < 256"
    using assms by simp_all
  show ?thesis
    using b by (simp add: getPrinterProtocol_def h w)
qed

theorem getPrinterProtocol_layout_witness:
  "0 \<le> height (IMAGE_DIMENSIONS 203) \<and> height (IMAGE_DIMENSIONS 203) < 65536
   \<and> 0 \<le> width (IMAGE_DIMENSIONS 203) \<and> width (IMAGE_DIMENSIONS 203) < 65536
   \<and> prefix (getPrinterProtocol (IMAGE_DIMENSIONS 203)) =
        [0x10, 0xFF, 0xFE, 0x01, 0x10, 0xFF, 0xFE, 0x40, 0x1D, 0x76, 0x30, 0, 17, 0, 227, 0]"
  using getPrinterProtocol_layout [of "IMAGE_DIMENSIONS 203"]
  by (simp add: IMAGE_DIMENSIONS_def)

section \<open>Sending an image\<close>

lemma sendImageSplit_result:
  assumes "0 < packetSize (config svc)"
  shows "sendImageSplit svc split =
           Some (svc\<lparr> protocol := getPrinterProtocol (dimensions split),
                      written := written svc @
                        chunksOf (nat (packetSize (config svc)))
                          (prefix (getPrinterProtocol (dimensions split)) @ data split) \<rparr>)"
proof -
  let ?svc' = "svc\<lparr> protocol := getPrinterProtocol (dimensions split) \<rparr>"
  have "0 < packetSize (config ?svc')" using assms by simp
  then have "packetLoop (prefix (getPrinterProtocol (dimensions split)) @ data split) 0 ?svc'
      = Some (?svc'\<lparr> written := written ?svc' @ chunksOf (nat (packetSize (config ?svc')))
           (drop (nat 0) (prefix (getPrinterProtocol (dimensions split)) @ data split)) \<rparr>)"
    by (rule packetLoop_chunks) simp
  then show ?thesis
    by (simp add: sendImageSplit_def sendDataInPackets_def Let_def)
qed

lemma sendSplits_result:
  assumes "0 < packetSize (config svc)"
  shows "\<exists>svc'. sendSplits svc splits = Some svc'
           \<and> config svc' = config svc
           \<and> protocol svc' = (if splits = [] then protocol svc
                               else getPrinterProtocol (dimensions (last splits)))
           \<and> written svc' = written svc @
                concat (map (\<lambda>s. chunksOf (nat (packetSize (config svc)))
                                    (prefix (getPrinterProtocol (dimensions s)) @ data s)) splits)"
  using assms
proof (induction splits arbitrary: svc)
  case Nil
  then show ?case by simp
next
  case (Cons s rest)
  let ?svc1 = "svc\<lparr> protocol := getPrinterProtocol (dimensions s),
                      written := written svc @
                        chunksOf (nat (packetSize (config svc)))
                          (prefix (getPrinterProtocol (dimensions s)) @ data s) \<rparr>"
  have one: "sendImageSplit svc s = Some ?svc1"
    using Cons.prems by (rule sendImageSplit_result)
  have "0 < packetSize (config ?svc1)" using Cons.prems by simp
  from Cons.IH [OF this] obtain svc' where
    r: "sendSplits ?svc1 rest = Some svc'" "config svc' = config ?svc1"
       "protocol svc' = (if rest = [] then protocol ?svc1
                               else getPrinterProtocol (dimensions (last rest)))"
       "written svc' = written ?svc1 @
                concat (map (\<lambda>s. chunksOf (nat (packetSize (config ?svc1)))
                                    (prefix (getPrinterProtocol (dimensions s)) @ data s)) rest)"
    by blast
  have "sendSplits svc (s # rest) = Some svc'" using one r(1) by simp
  moreover have "config svc' = config svc" using r(2) by simp
  moreover have "protocol svc' = (if s # rest = [] then protocol svc
                               else getPrinterProtocol (dimensions (last (s # rest))))"
    using r(3) by simp
  moreover have "written svc' = written svc @
                concat (map (\<lambda>s. chunksOf (nat (packetSize (config svc)))
                                    (prefix (getPrinterProtocol (dimensions s)) @ data s)) (s # rest))"
    using r(4) by simp
  ultimately show ?case by blast
qed

text \<open>
  Claim C10. The firmware request and the postfix returned by \<^verbatim>\<open>getPrinterProtocol\<close> do not
  depend on the dimensions. Hence, for a service whose protocol field was initialised by
  \<^verbatim>\<open>getPrinterProtocol\<close> and whose packet size is positive, \<^verbatim>\<open>sendImageData\<close> returns, the
  protocol field has been recomputed for every split, and the last write on the channel is
  the postfix the service started with, the fixed 7-byte command.
\<close>

theorem postfix_independent_of_dimensions:
  "firmwareRequest (getPrinterProtocol d1) = firmwareRequest (getPrinterProtocol d2)
   \<and> postfix (getPrinterProtocol d1) = postfix (getPrinterProtocol d2)
   \<and> (0 < packetSize (config svc) \<and> protocol svc = getPrinterProtocol d0 \<longrightarrow>
        (\<exists>svc'. sendImageData svc imageData imageDimensions = Some svc'
           \<and> protocol svc' = (if calculateImageSplits imageData imageDimensions = [] then protocol svc
                else getPrinterProtocol
                       (dimensions (last (calculateImageSplits imageData imageDimensions))))
           \<and> written svc' \<noteq> []
           \<and> last (written svc') = postfix (protocol svc)
           \<and> last (written svc') = [0x1B, 0x4A, 0x40, 0x10, 0xFF, 0xFE, 0x45]))"
proof -
  have const: "postfix (getPrinterProtocol d) = [0x1B, 0x4A, 0x40, 0x10, 0xFF, 0xFE, 0x45]" for d
    by (simp add: getPrinterProtocol_def)
  have fw: "firmwareRequest (getPrinterProtocol d1) = firmwareRequest (getPrinterProtocol d2)"
    by (simp add: getPrinterProtocol_def)
  have send: "\<exists>svc'. sendImageData svc imageData imageDimensions = Some svc'
           \<and> protocol svc' = (if calculateImageSplits imageData imageDimensions = [] then protocol svc
                else getPrinterProtocol
                       (dimensions (last (calculateImageSplits imageData imageDimensions))))
           \<and> written svc' \<noteq> []
           \<and> last (written svc') = postfix (protocol svc)
           \<and> last (written svc') = [0x1B, 0x4A, 0x40, 0x10, 0xFF, 0xFE, 0x45]"
    if P: "0 < packetSize (config svc)" and p0: "protocol svc = getPrinterProtocol d0"
  proof -
    let ?S = "calculateImageSplits imageData imageDimensions"
    from sendSplits_result [OF P, of ?S] obtain svc1 where
      r: "sendSplits svc ?S = Some svc1"
         "protocol svc1 = (if ?S = [] then protocol svc else getPrinterProtocol (dimensions (last ?S)))"
      by blast
    have pf: "postfix (protocol svc1) = postfix (protocol svc)"
      using r(2) p0 const by simp
    have "sendImageData svc imageData imageDimensions = Some (writeData svc1 (postfix (protocol svc1)))"
      using r(1) by (simp add: sendImageData_def)
    then show ?thesis using r(2) pf p0 const by (simp add: writeData_def)
  qed
  show ?thesis using fw const send by metis
qed

theorem postfix_independent_of_dimensions_witness:
  "0 < packetSize (config demoService)
   \<and> protocol demoService = getPrinterProtocol (IMAGE_DIMENSIONS 203)
   \<and> (\<exists>svc'. sendImageData demoService [1, 2, 3, 4, 5, 6] \<lparr> width = 3, height = 2, dpi = 203 \<rparr>
                 = Some svc'
          \<and> last (written svc') = postfix (protocol demoService)
          \<and> last (written svc') = [0x1B, 0x4A, 0x40, 0x10, 0xFF, 0xFE, 0x45])"
proof -
  have h: "0 < packetSize (config demoService)
           \<and> protocol demoService = getPrinterProtocol (IMAGE_DIMENSIONS 203)"
    by (simp add: demoService_def)
  from postfix_independent_of_dimensions
         [of _ _ demoService "IMAGE_DIMENSIONS 203" "[1, 2, 3, 4, 5, 6]"
             "\<lparr> width = 3, height = 2, dpi = 203 \<rparr>"] h
  show ?thesis by blast
qed

section \<open>Bit packing\<close>

lemma js_shl_one:
  assumes "idx < 31"
  shows "js_shl 1 (int idx) = 2 ^ idx"
proof -
  have a: "to_int32 (int idx) = int idx" using assms by (intro to_int32_id) simp_all
  have b: "to_int32 1 = 1" by (intro to_int32_id) simp_all
  have "(2::int) ^ idx < 2 ^ 31" using assms by (intro power_strict_increasing) simp_all
  then have c: "to_int32 (2 ^ idx) = 2 ^ idx"
    by (intro to_int32_id) (simp_all add: order_trans [of "- 2147483648" 0])
  have d: "nat (int idx mod 32) = idx" using assms by simp
  show ?thesis unfolding js_shl_def a b d by (simp add: c)
qed

lemma js_or_small:
  assumes "0 \<le> a" "a < 2 ^ 31" "0 \<le> b" "b < 2 ^ 31"
  shows "js_or a b = a OR b"
  using assms by (simp add: js_or_def to_int32_id)

lemma or_power_bounds:
  fixes v :: int
  assumes "0 \<le> v" "v < 2 ^ idx"
  shows "0 \<le> v OR 2 ^ idx" "v OR 2 ^ idx < 2 ^ Suc idx"
proof -
  show "0 \<le> v OR 2 ^ idx" using assms by simp
  have "v < 2 ^ Suc idx" using assms by simp
  moreover have "(2::int) ^ idx < 2 ^ Suc idx" by simp
  ultimately show "v OR 2 ^ idx < 2 ^ Suc idx"
    using assms(1) by (intro OR_upper) simp_all
qed

lemma reduceBits_bits:
  assumes "0 \<le> v" "v < 2 ^ idx" "idx + length bs \<le> 31"
  shows "0 \<le> reduceBits bs (int idx) v \<and> reduceBits bs (int idx) v < 2 ^ (idx + length bs)
       \<and> (\<forall>j. bit (reduceBits bs (int idx) v) j
                \<longleftrightarrow> bit v j \<or> (idx \<le> j \<and> j < idx + length bs \<and> bs ! (j - idx) = 1))"
  using assms
proof (induction bs arbitrary: idx v)
  case Nil
  then show ?case by auto
next
  case (Cons b rest)
  define v' where "v' = (if b = 1 then js_or v (js_shl 1 (int idx)) else v)"
  have idx: "idx < 31" using Cons.prems(3) by simp
  have p: "(2::int) ^ idx < 2 ^ 31" using idx by (intro power_strict_increasing) simp_all
  have v'_or: "v' = (if b = 1 then v OR 2 ^ idx else v)"
    using Cons.prems(1,2) p by (simp add: v'_def js_shl_one [OF idx] js_or_small)
  have v'_bounds: "0 \<le> v'" "v' < 2 ^ Suc idx"
    using or_power_bounds [OF Cons.prems(1,2)] Cons.prems(1,2) by (auto simp: v'_or)
  have v'_bit: "bit v' j \<longleftrightarrow> bit v j \<or> (b = 1 \<and> j = idx)" for j
    by (auto simp: v'_or bit_or_iff bit_exp_iff)
  have step: "reduceBits (b # rest) (int idx) v = reduceBits rest (int (Suc idx)) v'"
    by (simp add: v'_def add.commute)
  have "Suc idx + length rest \<le> 31" using Cons.prems(3) by simp
  from Cons.IH [OF v'_bounds this]
  have IH: "0 \<le> reduceBits rest (int (Suc idx)) v'"
           "reduceBits rest (int (Suc idx)) v' < 2 ^ (Suc idx + length rest)"
           "\<And>j. bit (reduceBits rest (int (Suc idx)) v') j
                \<longleftrightarrow> bit v' j \<or> (Suc idx \<le> j \<and> j < Suc idx + length rest \<and> rest ! (j - Suc idx) = 1)"
    by blast+
  have "bit (reduceBits (b # rest) (int idx) v) j
          \<longleftrightarrow> bit v j \<or> (idx \<le> j \<and> j < idx + length (b # rest) \<and> (b # rest) ! (j - idx) = 1)" for j
  proof (cases "j = idx")
    case True
    then show ?thesis unfolding step IH(3) v'_bit by auto
  next
    case False
    then have "(b # rest) ! (j - idx) = rest ! (j - Suc idx)" if "idx \<le> j"
      using that by (simp add: nth_Cons')
    then show ?thesis unfolding step IH(3) v'_bit using False by auto
  qed
  then show ?case unfolding step using IH(1,2) by simp
qed

lemma bitArrayToByte_bits:
  assumes "length bs = 8"
  shows "0 \<le> bitArrayToByte bs" "bitArrayToByte bs < 256"
        "bit (bitArrayToByte bs) j \<longleftrightarrow> j < 8 \<and> bs ! j = 1"
proof -
  have "0 \<le> reduceBits bs (int 0) 0 \<and> reduceBits bs (int 0) 0 < 2 ^ (0 + length bs)
       \<and> (\<forall>j. bit (reduceBits bs (int 0) 0) j
                \<longleftrightarrow> bit (0::int) j \<or> (0 \<le> j \<and> j < 0 + length bs \<and> bs ! (j - 0) = 1))"
    using assms by (intro reduceBits_bits) simp_all
  then show "0 \<le> bitArrayToByte bs" "bitArrayToByte bs < 256"
        "bit (bitArrayToByte bs) j \<longleftrightarrow> j < 8 \<and> bs ! j = 1"
    using assms by (simp_all add: bitArrayToByte_def)
qed

lemma visited_neg: "y < 0 \<Longrightarrow> visited stride pixels x y = []"
  by (simp add: visited_def)

lemma visited_step:
  assumes "0 \<le> y"
  shows "visited stride pixels x y = pixelBit stride pixels x y # visited stride pixels x (y - 1)"
proof -
  let ?f = "\<lambda>j. pixelBit stride pixels x (y - int j)"
  have n: "nat (y + 1) = Suc (nat y)" "nat (y - 1 + 1) = nat y" using assms by simp_all
  have up: "[0..<Suc (nat y)] = 0 # map Suc [0..<nat y]"
    by (simp add: upt_conv_Cons map_Suc_upt del: upt_Suc)
  have f: "?f (Suc j) = pixelBit stride pixels x (y - 1 - int j)" for j
    by (simp add: algebra_simps)
  have "visited stride pixels x y = map ?f (0 # map Suc [0..<nat y])"
    unfolding visited_def n up ..
  also have "\<dots> = ?f 0 # map (\<lambda>j. ?f (Suc j)) [0..<nat y]"
    by (simp only: list.map map_map comp_def)
  also have "\<dots> = pixelBit stride pixels x y # visited stride pixels x (y - 1)"
    unfolding visited_def n f by simp
  finally show ?thesis .
qed

lemma length_visited: "length (visited stride pixels x y) = nat (y + 1)"
  by (simp add: visited_def)

lemma nth_visited:
  "j < nat (y + 1) \<Longrightarrow> visited stride pixels x y ! j = pixelBit stride pixels x (y - int j)"
  by (simp add: visited_def)

lemma columnLoop_packBits:
  "columnLoop stride pixels x y bitChunk out = packBits (visited stride pixels x y) bitChunk out"
proof (induction "nat (y + 1)" arbitrary: y bitChunk out)
  case 0
  then have "y < 0" by simp
  then show ?case by (subst columnLoop.simps) (simp add: visited_neg)
next
  case (Suc n)
  then have y: "0 \<le> y" and n: "n = nat (y - 1 + 1)" by simp_all
  have b: "(if buffer_get pixels (y * stride + x * 4) = Some WHITE_PIXEL_VALUE then 0 else 1)
             = pixelBit stride pixels x y"
    by (simp add: pixelBit_def)
  show ?case
    using y Suc.hyps(1) [OF n]
    by (subst columnLoop.simps) (simp add: visited_step Let_def b BITS_PER_BYTE_def)
qed

lemma packBits_bytes:
  assumes "length bitChunk < 8"
  shows "packBits bs bitChunk out
           = out @ map (\<lambda>k. bitArrayToByte (rev (take 8 (drop (8 * k) (rev bitChunk @ bs)))))
                       [0..<(length bitChunk + length bs) div 8]"
  using assms
proof (induction bs arbitrary: bitChunk out)
  case Nil
  then show ?case by simp
next
  case (Cons b bs)
  show ?case
  proof (cases "length bitChunk = 7")
    case True
    let ?B = "\<lambda>l k. bitArrayToByte (rev (take 8 (drop (8 * k) l)))"
    have cnt: "(length bitChunk + length (b # bs)) div 8 = Suc (length bs div 8)"
      using True by simp
    have up: "[0..<Suc (length bs div 8)] = 0 # map Suc [0..<length bs div 8]"
      by (simp add: upt_conv_Cons map_Suc_upt del: upt_Suc)
    have first: "rev (take 8 (drop (8 * 0) (rev bitChunk @ b # bs))) = b # bitChunk"
      using True by simp
    have later: "drop (8 * Suc k) (rev bitChunk @ b # bs) = drop (8 * k) bs" for k
      using True by simp
    have maps: "map (?B (rev bitChunk @ b # bs)) (0 # map Suc [0..<length bs div 8])
                  = bitArrayToByte (b # bitChunk) # map (?B bs) [0..<length bs div 8]"
      by (simp only: list.map map_map comp_def first later)
    have step: "packBits (b # bs) bitChunk out = packBits bs [] (out @ [bitArrayToByte (b # bitChunk)])"
      using True by simp
    have "packBits bs [] (out @ [bitArrayToByte (b # bitChunk)])
            = (out @ [bitArrayToByte (b # bitChunk)])
              @ map (\<lambda>k. bitArrayToByte (rev (take 8 (drop (8 * k) (rev [] @ bs)))))
                    [0..<(length ([]::int list) + length bs) div 8]"
      by (rule Cons.IH) simp
    then have IH': "packBits bs [] (out @ [bitArrayToByte (b # bitChunk)])
            = (out @ [bitArrayToByte (b # bitChunk)]) @ map (?B bs) [0..<length bs div 8]"
      by simp
    show ?thesis
      unfolding step IH' cnt up maps by simp
  next
    case False
    then have lt: "length (b # bitChunk) < 8" using Cons.prems by simp
    have "packBits (b # bs) bitChunk out = packBits bs (b # bitChunk) out"
      using False by simp
    also have "\<dots> = out @ map (\<lambda>k. bitArrayToByte (rev (take 8 (drop (8 * k) (rev (b # bitChunk) @ bs)))))
                            [0..<(length (b # bitChunk) + length bs) div 8]"
      using lt by (rule Cons.IH)
    finally show ?thesis by simp
  qed
qed

lemma columnLoop_columnBytes:
  "columnLoop stride pixels x (h - 1) [] out = out @ columnBytes stride pixels h x"
proof -
  have "packBits (visited stride pixels x (h - 1)) [] out
          = out @ map (\<lambda>k. bitArrayToByte (rev (take 8 (drop (8 * k)
                               (rev [] @ visited stride pixels x (h - 1))))))
                      [0..<(length ([]::int list) + length (visited stride pixels x (h - 1))) div 8]"
    by (rule packBits_bytes) simp
  then show ?thesis
    by (simp add: columnLoop_packBits columnBytes_def length_visited)
qed

lemma length_columnBytes: "length (columnBytes stride pixels h x) = nat h div 8"
  by (simp add: columnBytes_def)

lemma imageLoop_columns:
  "imageLoop stride pixels conf (int k) out
     = out @ concat (map (\<lambda>i. columnBytes stride pixels (CanvasConfig.height conf) (int i))
                         [k..<nat (CanvasConfig.width conf)])"
proof (induction "nat (CanvasConfig.width conf) - k" arbitrary: k out)
  case 0
  then have "\<not> int k < CanvasConfig.width conf" "[k..<nat (CanvasConfig.width conf)] = []"
    by simp_all
  then show ?case by (subst imageLoop.simps) simp
next
  case (Suc m)
  then have lt: "int k < CanvasConfig.width conf" "k < nat (CanvasConfig.width conf)" by linarith+
  have m: "m = nat (CanvasConfig.width conf) - Suc k" using Suc.hyps(2) by simp
  have up: "[k..<nat (CanvasConfig.width conf)] = k # [Suc k..<nat (CanvasConfig.width conf)]"
    using lt by (simp add: upt_conv_Cons)
  have "imageLoop stride pixels conf (int k) out
          = imageLoop stride pixels conf (int (Suc k))
              (out @ columnBytes stride pixels (CanvasConfig.height conf) (int k))"
    using lt by (subst imageLoop.simps) (simp add: columnLoop_columnBytes add.commute)
  also have "\<dots> = (out @ columnBytes stride pixels (CanvasConfig.height conf) (int k))
                    @ concat (map (\<lambda>i. columnBytes stride pixels (CanvasConfig.height conf) (int i))
                                  [Suc k..<nat (CanvasConfig.width conf)])"
    using m by (rule Suc.hyps(1))
  finally show ?case unfolding up by simp
qed

lemma canvasToImageData_columns:
  "canvasToImageData stride pixels conf
     = concat (map (\<lambda>i. columnBytes stride pixels (CanvasConfig.height conf) (int i))
                   [0..<nat (CanvasConfig.width conf)])"
  using imageLoop_columns [of stride pixels conf 0 "[]"] by (simp add: canvasToImageData_def)

lemma concat_uniform:
  assumes "\<forall>l \<in> set ls. length l = m"
  shows "length (concat ls) = length ls * m"
    and "i < length ls \<Longrightarrow> j < m \<Longrightarrow> concat ls ! (i * m + j) = ls ! i ! j"
  using assms
proof (induction ls arbitrary: i)
  case Nil
  { case 1 show ?case by simp }
  { case 2 then show ?case by simp }
next
  case (Cons l ls)
  { case 1
    then show ?case using Cons.IH(1) by simp }
  { case 2
    then have len: "length l = m" and rest: "\<forall>l \<in> set ls. length l = m" by simp_all
    show ?case
    proof (cases i)
      case 0
      then show ?thesis using 2 len by (simp add: nth_append)
    next
      case (Suc i')
      then have "i' < length ls" using 2 by simp
      from Cons.IH(2) [OF this 2(2) rest]
      have "concat ls ! (i' * m + j) = ls ! i' ! j" .
      then show ?thesis using Suc len by (simp add: nth_append)
    qed }
qed

text \<open>
  Claim C7. The packed output is the concatenation, column by column, of the bytes of each
  column; a column contributes \<open>\<lfloor>height / 8\<rfloor>\<close> bytes, whatever the height, so a partial group
  of fewer than eight pixels at the end of a column gives no byte; and the output has
  \<open>width * \<lfloor>height / 8\<rfloor>\<close> bytes. (Width and height are read as natural numbers: a negative
  one gives no iteration.)
\<close>

theorem partial_byte_dropped:
  "canvasToImageData stride pixels conf
     = concat (map (\<lambda>i. columnLoop stride pixels (int i) (CanvasConfig.height conf - 1) [] [])
                   [0..<nat (CanvasConfig.width conf)])
   \<and> length (columnLoop stride pixels x (CanvasConfig.height conf - 1) [] [])
       = nat (CanvasConfig.height conf) div 8
   \<and> length (canvasToImageData stride pixels conf)
       = nat (CanvasConfig.width conf) * (nat (CanvasConfig.height conf) div 8)"
proof -
  have col: "columnLoop stride pixels c (CanvasConfig.height conf - 1) [] []
               = columnBytes stride pixels (CanvasConfig.height conf) c" for c
    using columnLoop_columnBytes [of stride pixels c "CanvasConfig.height conf" "[]"] by simp
  have "\<forall>l \<in> set (map (\<lambda>i. columnBytes stride pixels (CanvasConfig.height conf) (int i))
                         [0..<nat (CanvasConfig.width conf)]).
          length l = nat (CanvasConfig.height conf) div 8"
    by (simp add: length_columnBytes)
  then have "length (concat (map (\<lambda>i. columnBytes stride pixels (CanvasConfig.height conf) (int i))
                         [0..<nat (CanvasConfig.width conf)]))
      = length (map (\<lambda>i. columnBytes stride pixels (CanvasConfig.height conf) (int i))
                         [0..<nat (CanvasConfig.width conf)]) * (nat (CanvasConfig.height conf) div 8)"
    by (rule concat_uniform(1))
  then have "length (canvasToImageData stride pixels conf)
       = nat (CanvasConfig.width conf) * (nat (CanvasConfig.height conf) div 8)"
    by (simp add: canvasToImageData_columns)
  then show ?thesis
    by (simp add: col canvasToImageData_columns length_columnBytes)
qed

text \<open>
  Claim C2, as stated, fails. On a canvas one pixel wide and eight high whose only
  non-white pixel is the bottom one, which is visited first, the packed byte is 128: bit 0
  is not set, bit 7 is.
\<close>

theorem packed_bit_order_counterexample:
  "canvasToImageData 4 columnCanvas columnConfig = [128]
   \<and> buffer_get columnCanvas ((CanvasConfig.height columnConfig - 1) * 4 + 0 * 4)
       \<noteq> Some WHITE_PIXEL_VALUE
   \<and> \<not> bit (canvasToImageData 4 columnCanvas columnConfig ! 0) 0"
  by (simp add: canvasToImageData_def imageLoop.simps columnLoop.simps columnCanvas_def
        columnConfig_def buffer_get_def WHITE_PIXEL_VALUE_def BITS_PER_BYTE_def
        bitArrayToByte_def js_or_def js_shl_def to_int32_def Let_def)

text \<open>
  Claim C2, amended. Columns are packed one after the other from \<open>x = 0\<close>, each from the
  bottom row to the top row, eight consecutively visited pixels to a byte. The \<open>i\<close>-th
  pixel visited of the \<open>k\<close>-th group of column \<open>x\<close>, the pixel of row
  \<open>height - 1 - (8 * k + i)\<close>, is bit \<open>7 - i\<close> of byte \<open>x * \<lfloor>height / 8\<rfloor> + k\<close>: bit 7 is
  the first pixel visited and bit 0 the last. The bit is set if and only if the first
  channel byte of the pixel is not \<open>0xFF\<close>.
\<close>

theorem packed_bit_order:
  assumes "0 \<le> x" "x < CanvasConfig.width conf"
    and "k < nat (CanvasConfig.height conf) div 8" "i < 8"
  shows "nat x * (nat (CanvasConfig.height conf) div 8) + k
           < length (canvasToImageData stride pixels conf)
       \<and> (bit (canvasToImageData stride pixels conf
                  ! (nat x * (nat (CanvasConfig.height conf) div 8) + k)) (7 - i)
            \<longleftrightarrow> buffer_get pixels
                  ((CanvasConfig.height conf - 1 - int (8 * k + i)) * stride + x * 4)
                \<noteq> Some WHITE_PIXEL_VALUE)
       \<and> 0 \<le> canvasToImageData stride pixels conf
                  ! (nat x * (nat (CanvasConfig.height conf) div 8) + k)
       \<and> canvasToImageData stride pixels conf
             ! (nat x * (nat (CanvasConfig.height conf) div 8) + k) < 256"
proof -
  let ?H = "CanvasConfig.height conf" and ?W = "CanvasConfig.width conf"
  define m where "m = nat ?H div 8"
  define ls where "ls = map (\<lambda>i. columnBytes stride pixels ?H (int i)) [0..<nat ?W]"
  define V where "V = visited stride pixels x (?H - 1)"
  define t where "t = take 8 (drop (8 * k) V)"
  have out: "canvasToImageData stride pixels conf = concat ls"
    by (simp add: ls_def canvasToImageData_columns)
  have uni: "\<forall>l \<in> set ls. length l = m" by (simp add: ls_def m_def length_columnBytes)
  have xi: "nat x < length ls" "int (nat x) = x" using assms(1,2) by (simp_all add: ls_def)
  have km: "k < m" using assms(3) by (simp add: m_def)
  have len: "length (concat ls) = length ls * m" using uni by (rule concat_uniform(1))
  have "nat x * m + k < Suc (nat x) * m" using km by simp
  also have "\<dots> \<le> length ls * m" using xi(1) by (intro mult_le_mono1) simp
  finally have idx: "nat x * m + k < length (concat ls)" using len by simp
  have "concat ls ! (nat x * m + k) = ls ! nat x ! k"
    using uni xi(1) km by (intro concat_uniform(2)) simp_all
  also have "ls ! nat x = columnBytes stride pixels ?H x"
    using xi assms(1,2) by (simp add: ls_def)
  also have "columnBytes stride pixels ?H x ! k = bitArrayToByte (rev t)"
    using assms(3) by (simp add: columnBytes_def t_def V_def)
  finally have byte: "concat ls ! (nat x * m + k) = bitArrayToByte (rev t)" .
  have lenV: "length V = nat ?H" by (simp add: V_def length_visited)
  have room: "8 * k + 8 \<le> nat ?H" using assms(3) by linarith
  then have lent: "length t = 8" using lenV by (simp add: t_def)
  then have lenr: "length (rev t) = 8" by simp
  have "rev t ! (7 - i) = t ! (length t - Suc (7 - i))"
    using lent assms(4) by (intro rev_nth) simp
  also have "\<dots> = t ! i" using lent assms(4) by simp
  also have "\<dots> = V ! (8 * k + i)" using assms(4) lenV room by (simp add: t_def)
  also have "\<dots> = pixelBit stride pixels x (?H - 1 - int (8 * k + i))"
    unfolding V_def using room assms(4) by (intro nth_visited) linarith
  finally have bitv: "rev t ! (7 - i) = pixelBit stride pixels x (?H - 1 - int (8 * k + i))" .
  have "bit (bitArrayToByte (rev t)) (7 - i) \<longleftrightarrow> 7 - i < 8 \<and> rev t ! (7 - i) = 1"
    using lenr by (rule bitArrayToByte_bits(3))
  also have "\<dots> \<longleftrightarrow> pixelBit stride pixels x (?H - 1 - int (8 * k + i)) = 1"
  proof -
    have "7 - i < 8" by linarith
    then show ?thesis unfolding bitv by simp
  qed
  also have "\<dots> \<longleftrightarrow> buffer_get pixels ((?H - 1 - int (8 * k + i)) * stride + x * 4)
                       \<noteq> Some WHITE_PIXEL_VALUE"
    by (simp add: pixelBit_def)
  finally have bits: "bit (bitArrayToByte (rev t)) (7 - i)
      \<longleftrightarrow> buffer_get pixels ((?H - 1 - int (8 * k + i)) * stride + x * 4) \<noteq> Some WHITE_PIXEL_VALUE" .
  have range: "0 \<le> bitArrayToByte (rev t)" "bitArrayToByte (rev t) < 256"
    using lenr by (rule bitArrayToByte_bits(1), rule bitArrayToByte_bits(2))
  show ?thesis
    using idx bits range unfolding out byte [symmetric] m_def by simp
qed

theorem packed_bit_order_witness:
  "bit (canvasToImageData 4 columnCanvas columnConfig ! 0) 7
   \<and> buffer_get columnCanvas 28 \<noteq> Some WHITE_PIXEL_VALUE"
  using packed_bit_order [of 0 columnConfig 0 0 4 columnCanvas]
  by (simp add: columnConfig_def columnCanvas_def buffer_get_def WHITE_PIXEL_VALUE_def)

section \<open>Variable substitution\<close>

text \<open>
  Claim C5. The claim and the documentation of the package write a placeholder as
  \<^verbatim>\<open>${name}\<close>; \<^verbatim>\<open>processVariables\<close> looks for \<^verbatim>\<open>{{name}}\<close>, a pattern without
  metacharacters. With the variable \<open>name\<close> bound to \<open>Alice\<close>, the content
  \<^verbatim>\<open>Hello ${name}\<close> is returned unchanged, while \<^verbatim>\<open>Hello {{name}}\<close> becomes
  \<^verbatim>\<open>Hello Alice\<close>.
\<close>

theorem processVariables_dollar_placeholder:
  "processVariables literalRegExp ''Hello ${name}'' (Some [(''name'', VString ''Alice'')])
     = Inr ''Hello ${name}''
   \<and> processVariables literalRegExp ''Hello {{name}}'' (Some [(''name'', VString ''Alice'')])
     = Inr ''Hello Alice''"
  by (simp add: processVariables_def literalRegExp_def js_String_def)

section \<open>Stroke widths\<close>

lemma lineWidths_append [simp]: "lineWidths (xs @ ys) = lineWidths xs @ lineWidths ys"
  by (induction xs rule: lineWidths.induct) simp_all

text \<open>
  Claim C6, as stated, fails. At 192 DPI the scale factor is 2; a line of declared width 3
  from (0, 0) to (10, 0) is stroked with line width 3, not with the scaled width 6, while its
  end point is scaled to (20, 0).
\<close>

theorem stroke_width_scaled_counterexample:
  "lineWidths (renderLineElement []
       \<lparr> start = \<lparr> pos_x = 0, pos_y = 0 \<rparr>, end' = \<lparr> pos_x = 10, pos_y = 0 \<rparr>,
         width = Some 3 \<rparr> (demoConfig 192)) = [3]
   \<and> real_of_int (js_round (3 * scaleFactor (demoConfig 192))) = 6
   \<and> LineTo (js_round (10 * scaleFactor (demoConfig 192))) 0 \<in> set (renderLineElement []
       \<lparr> start = \<lparr> pos_x = 0, pos_y = 0 \<rparr>, end' = \<lparr> pos_x = 10, pos_y = 0 \<rparr>,
         width = Some 3 \<rparr> (demoConfig 192))"
  by (simp add: renderLineElement_def demoConfig_def getCanvasConfig_def STANDARD_DPI_def
        HEIGHT_MULTIPLIER_def js_round_def or_default_def)

lemma verticalLines_widths:
  assumes "verticalLines b step x ctx = Some ctx'"
  shows "lineWidths ctx' = lineWidths ctx"
proof (rule verticalLines.raw_induct
         [where P = "\<lambda>b' s' x' c r. lineWidths r = lineWidths c", OF _ assms])
  fix f :: "PixelBounds \<Rightarrow> int \<Rightarrow> int \<Rightarrow> Context2D \<Rightarrow> Context2D option" and b' s' x' c r
  assume IH: "\<And>s' x' c b' r. f s' x' c b' = Some r \<Longrightarrow> lineWidths r = lineWidths b'"
    and body: "(if x' \<le> px_x b' + px_width b'
                then f b' s' (x' + s')
                       (c @ [BeginPath, MoveTo x' (px_y b'), LineTo x' (px_y b' + px_height b'), Stroke])
                else Some c) = Some r"
  show "lineWidths r = lineWidths c"
  proof (cases "x' \<le> px_x b' + px_width b'")
    case True
    with body IH [of b' s' "x' + s'" _ r] show ?thesis by simp
  next
    case False
    with body show ?thesis by simp
  qed
qed

lemma horizontalLines_widths:
  assumes "horizontalLines b step y ctx = Some ctx'"
  shows "lineWidths ctx' = lineWidths ctx"
proof (rule horizontalLines.raw_induct
         [where P = "\<lambda>b' s' y' c r. lineWidths r = lineWidths c", OF _ assms])
  fix f :: "PixelBounds \<Rightarrow> int \<Rightarrow> int \<Rightarrow> Context2D \<Rightarrow> Context2D option" and b' s' y' c r
  assume IH: "\<And>s' y' c b' r. f s' y' c b' = Some r \<Longrightarrow> lineWidths r = lineWidths b'"
    and body: "(if y' \<le> px_y b' + px_height b'
                then f b' s' (y' + s')
                       (c @ [BeginPath, MoveTo (px_x b') y', LineTo (px_x b' + px_width b') y', Stroke])
                else Some c) = Some r"
  show "lineWidths r = lineWidths c"
  proof (cases "y' \<le> px_y b' + px_height b'")
    case True
    with body IH [of b' s' "y' + s'" _ r] show ?thesis by simp
  next
    case False
    with body show ?thesis by simp
  qed
qed

lemma verticalLines_terminates:
  assumes "0 < step"
  shows "\<exists>ctx'. verticalLines b step x ctx = Some ctx'"
proof (induction "nat (px_x b + px_width b - x + 1)" arbitrary: x ctx rule: less_induct)
  case less
  show ?case
  proof (cases "x \<le> px_x b + px_width b")
    case False
    then show ?thesis by (subst verticalLines.simps) simp
  next
    case True
    then have "nat (px_x b + px_width b - (x + step) + 1) < nat (px_x b + px_width b - x + 1)"
      using assms by linarith
    from less.hyps [OF this] show ?thesis
      using True by (subst verticalLines.simps) simp
  qed
qed

lemma horizontalLines_terminates:
  assumes "0 < step"
  shows "\<exists>ctx'. horizontalLines b step y ctx = Some ctx'"
proof (induction "nat (px_y b + px_height b - y + 1)" arbitrary: y ctx rule: less_induct)
  case less
  show ?case
  proof (cases "y \<le> px_y b + px_height b")
    case False
    then show ?thesis by (subst horizontalLines.simps) simp
  next
    case True
    then have "nat (px_y b + px_height b - (y + step) + 1) < nat (px_y b + px_height b - y + 1)"
      using assms by linarith
    from less.hyps [OF this] show ?thesis
      using True by (subst horizontalLines.simps) simp
  qed
qed

text \<open>
  Claim C6, amended. The only line width that a line element or a grid element assigns is
  the declared width of the element as it is, or 1 when that width is absent or 0; it does
  not depend on the DPI. A grid element whose scaled cell width and height are positive is
  drawn to the end.
\<close>

theorem stroke_width_as_declared:
  "lineWidths (renderLineElement ctx l conf)
     = lineWidths ctx @ [case LineElement.width l of None \<Rightarrow> 1 | Some w \<Rightarrow> if w = 0 then 1 else w]
   \<and> (\<forall>ctx'. renderGridElement ctx g conf = Some ctx' \<longrightarrow>
         lineWidths ctx'
           = lineWidths ctx @ [case lineWidth g of None \<Rightarrow> 1 | Some w \<Rightarrow> if w = 0 then 1 else w])
   \<and> (0 < js_round (cellWidth g * scaleFactor conf) \<and> 0 < js_round (cellHeight g * scaleFactor conf)
        \<longrightarrow> (\<exists>ctx'. renderGridElement ctx g conf = Some ctx'))"
proof -
  have line: "lineWidths (renderLineElement ctx l conf)
     = lineWidths ctx @ [case LineElement.width l of None \<Rightarrow> 1 | Some w \<Rightarrow> if w = 0 then 1 else w]"
    by (simp add: renderLineElement_def or_default_def Let_def)
  have grid: "lineWidths ctx'
           = lineWidths ctx @ [case lineWidth g of None \<Rightarrow> 1 | Some w \<Rightarrow> if w = 0 then 1 else w]"
    if "renderGridElement ctx g conf = Some ctx'" for ctx'
  proof -
    let ?b = "scaledBounds (GridElement.bounds g) conf"
    let ?ctx1 = "ctx @ [Save, SetStrokeStyle BLACK, SetLineWidth (or_default (lineWidth g) 1)]"
    from that obtain ctx2 ctx3 where
      v: "verticalLines ?b (js_round (cellWidth g * scaleFactor conf)) (px_x ?b) ?ctx1 = Some ctx2"
      and h: "horizontalLines ?b (js_round (cellHeight g * scaleFactor conf)) (px_y ?b) ctx2 = Some ctx3"
      and r: "ctx' = ctx3 @ [Restore]"
      by (auto simp: renderGridElement_def Let_def split: option.splits)
    have "lineWidths ctx' = lineWidths ?ctx1"
      using verticalLines_widths [OF v] horizontalLines_widths [OF h] r by simp
    then show ?thesis by (simp add: or_default_def)
  qed
  have total: "\<exists>ctx'. renderGridElement ctx g conf = Some ctx'"
    if "0 < js_round (cellWidth g * scaleFactor conf) \<and> 0 < js_round (cellHeight g * scaleFactor conf)"
  proof -
    let ?b = "scaledBounds (GridElement.bounds g) conf"
    let ?ctx1 = "ctx @ [Save, SetStrokeStyle BLACK, SetLineWidth (or_default (lineWidth g) 1)]"
    from that verticalLines_terminates obtain ctx2 where
      v: "verticalLines ?b (js_round (cellWidth g * scaleFactor conf)) (px_x ?b) ?ctx1 = Some ctx2"
      by blast
    from that horizontalLines_terminates obtain ctx3 where
      h: "horizontalLines ?b (js_round (cellHeight g * scaleFactor conf)) (px_y ?b) ctx2 = Some ctx3"
      by blast
    show ?thesis using v h by (simp add: renderGridElement_def Let_def)
  qed
  show ?thesis using line grid total by blast
qed

theorem stroke_width_as_declared_witness:
  "0 < js_round (cellWidth \<lparr> cellWidth = 50, cellHeight = 40, lineWidth = Some 3, bounds = None \<rparr>
                  * scaleFactor (demoConfig 192))
   \<and> 0 < js_round (cellHeight \<lparr> cellWidth = 50, cellHeight = 40, lineWidth = Some 3, bounds = None \<rparr>
                  * scaleFactor (demoConfig 192))
   \<and> (\<exists>ctx'. renderGridElement []
                 \<lparr> cellWidth = 50, cellHeight = 40, lineWidth = Some 3, bounds = None \<rparr>
                 (demoConfig 192) = Some ctx'
          \<and> lineWidths ctx' = [3])"
proof -
  let ?g = "\<lparr> cellWidth = 50, cellHeight = 40, lineWidth = Some 3, bounds = None \<rparr>"
  let ?l = "\<lparr> start = \<lparr> pos_x = 0, pos_y = 0 \<rparr>, end' = \<lparr> pos_x = 10, pos_y = 0 \<rparr>,
             width = Some 3 \<rparr>"
  have h: "0 < js_round (cellWidth ?g * scaleFactor (demoConfig 192))
           \<and> 0 < js_round (cellHeight ?g * scaleFactor (demoConfig 192))"
    by (simp add: demoConfig_def getCanvasConfig_def STANDARD_DPI_def js_round_def)
  from stroke_width_as_declared [of "[]" ?l "demoConfig 192" ?g] h
  obtain ctx' where "renderGridElement [] ?g (demoConfig 192) = Some ctx'"
    by blast
  moreover from this stroke_width_as_declared [of "[]" ?l "demoConfig 192" ?g]
  have "lineWidths ctx' = [3]" by simp
  ultimately show ?thesis using h by blast
qed

section \<open>Rendering a template\<close>

lemma horizontalStripes_terminates:
  assumes "0 < step"
  shows "\<exists>ctx'. horizontalStripes b step sw y ctx = Some ctx'"
proof (induction "nat (px_y b + px_height b - y)" arbitrary: y ctx rule: less_induct)
  case less
  show ?case
  proof (cases "y < px_y b + px_height b")
    case False
    then show ?thesis by (subst horizontalStripes.simps) simp
  next
    case True
    then have "nat (px_y b + px_height b - (y + step)) < nat (px_y b + px_height b - y)"
      using assms by linarith
    from less.hyps [OF this] show ?thesis
      using True by (subst horizontalStripes.simps) simp
  qed
qed

lemma verticalStripes_terminates:
  assumes "0 < step"
  shows "\<exists>ctx'. verticalStripes b step sw x ctx = Some ctx'"
proof (induction "nat (px_x b + px_width b - x)" arbitrary: x ctx rule: less_induct)
  case less
  show ?case
  proof (cases "x < px_x b + px_width b")
    case False
    then show ?thesis by (subst verticalStripes.simps) simp
  next
    case True
    then have "nat (px_x b + px_width b - (x + step)) < nat (px_x b + px_width b - x)"
      using assms by linarith
    from less.hyps [OF this] show ?thesis
      using True by (subst verticalStripes.simps) simp
  qed
qed

lemma renderStripeElement_terminates:
  assumes "0 < js_round (spacing e * scaleFactor conf)"
  shows "\<exists>ctx'. renderStripeElement ctx e conf = Some ctx'"
proof (cases "direction e = ''horizontal''")
  case True
  from horizontalStripes_terminates [OF assms] obtain c where
    "horizontalStripes (scaledBounds (StripeElement.bounds e) conf)
       (js_round (spacing e * scaleFactor conf))
       (js_round (StripeElement.width e * scaleFactor conf))
       (px_y (scaledBounds (StripeElement.bounds e) conf))
       (ctx @ [Save, SetFillStyle BLACK]) = Some c"
    by blast
  then show ?thesis using True by (simp add: renderStripeElement_def Let_def)
next
  case False
  from verticalStripes_terminates [OF assms] obtain c where
    "verticalStripes (scaledBounds (StripeElement.bounds e) conf)
       (js_round (spacing e * scaleFactor conf))
       (js_round (StripeElement.width e * scaleFactor conf))
       (px_x (scaledBounds (StripeElement.bounds e) conf))
       (ctx @ [Save, SetFillStyle BLACK]) = Some c"
    by blast
  then show ?thesis using False by (simp add: renderStripeElement_def Let_def)
qed

lemma renderGridElement_terminates:
  assumes "0 < js_round (cellWidth g * scaleFactor conf)" "0 < js_round (cellHeight g * scaleFactor conf)"
  shows "\<exists>ctx'. renderGridElement ctx g conf = Some ctx'"
proof -
  let ?b = "scaledBounds (GridElement.bounds g) conf"
  let ?ctx1 = "ctx @ [Save, SetStrokeStyle BLACK, SetLineWidth (or_default (lineWidth g) 1)]"
  from assms(1) verticalLines_terminates obtain ctx2 where
    v: "verticalLines ?b (js_round (cellWidth g * scaleFactor conf)) (px_x ?b) ?ctx1 = Some ctx2"
    by blast
  from assms(2) horizontalLines_terminates obtain ctx3 where
    h: "horizontalLines ?b (js_round (cellHeight g * scaleFactor conf)) (px_y ?b) ctx2 = Some ctx3"
    by blast
  show ?thesis using v h by (simp add: renderGridElement_def Let_def)
qed

lemma logPrefixed_simps [simp]:
  "logPrefixed logger None = None"
  "logPrefixed logger (Some (Inl err)) = Some (Inl err)"
  "logPrefixed logger (Some (Inr (ctx, l))) = Some (Inr (ctx, logger @ l))"
  by (simp_all add: logPrefixed_def)

lemma logPrefixed_twice: "logPrefixed l1 (logPrefixed l2 outcome) = logPrefixed (l1 @ l2) outcome"
  by (simp add: logPrefixed_def split: option.splits sum.splits prod.splits)

lemma logPrefixed_Nil [simp]: "logPrefixed [] outcome = outcome"
  by (simp add: logPrefixed_def split: option.splits sum.splits prod.splits)

lemma sameDrawing_refl [simp]: "sameDrawing a a"
  by (simp add: sameDrawing_def split: option.splits sum.splits prod.splits)

lemma is_prefix_append [simp]: "is_prefix p (p @ s)"
  by (induction p) simp_all

lemma digit_chars_are_digits: "\<forall>n \<in> set [0..<10]. is_digit (digit_char n)"
  by code_simp

lemma digit_char_is_digit: "n < 10 \<Longrightarrow> is_digit (digit_char n)"
  using digit_chars_are_digits by simp

lemma nat_to_string_digits: "c \<in> set (nat_to_string n) \<Longrightarrow> is_digit c"
proof (induction n arbitrary: c rule: nat_to_string.induct)
  case (1 n)
  show ?case
  proof (cases "n < 10")
    case True
    then show ?thesis using "1.prems" digit_char_is_digit [of n]
      by (subst (asm) nat_to_string.simps) simp
  next
    case False
    then have "c \<in> set (nat_to_string (n div 10)) \<or> c = digit_char (n mod 10)"
      using "1.prems" by (subst (asm) nat_to_string.simps) auto
    then show ?thesis
      using "1.IH" [OF False] digit_char_is_digit [of "n mod 10"] by auto
  qed
qed

lemma unnumbered_failed:
  "unnumbered (''Failed to render element '' @ nat_to_string n @ '' ('' @ ty @ '')'')
     = ''Failed to render element '' @ '' ('' @ ty @ '')''"
proof -
  define p where "p = ''Failed to render element ''"
  define rest where "rest = '' ('' @ ty @ '')''"
  have unfold: "unnumbered m = (if is_prefix p m then p @ dropWhile is_digit (drop (length p) m)
                                else m)" for m
    by (simp only: unnumbered_def p_def)
  have "\<not> is_digit (hd rest)" "rest \<noteq> []"
    by (simp_all add: rest_def is_digit_def)
  then have "dropWhile is_digit (nat_to_string n @ rest) = rest"
    using nat_to_string_digits [of _ n] by (cases rest) (simp_all add: dropWhile_append2)
  then have "unnumbered (p @ nat_to_string n @ rest) = p @ rest"
    by (simp add: unfold)
  then show ?thesis unfolding p_def rest_def .
qed

lemma sameDrawing_logPrefixed:
  assumes "sameDrawing a b" "map unnumbered m' = map unnumbered m"
  shows "sameDrawing (logPrefixed m a) (logPrefixed m' b)"
  using assms
  by (auto simp: sameDrawing_def logPrefixed_def split: option.splits sum.splits prod.splits)

lemma renderElement_terminates:
  assumes "stepsPositive (scaleFactor conf) e"
  shows "\<exists>res. renderElement regExp ctx logger e conf vars = Some res"
proof (cases e)
  case (Stripes s)
  with assms renderStripeElement_terminates [of s conf ctx] show ?thesis
    by (auto simp: renderElement_def)
next
  case (Grid g)
  with assms renderGridElement_terminates [of g conf ctx] show ?thesis
    by (auto simp: renderElement_def)
qed (simp_all add: renderElement_def)

lemma renderElement_logger:
  "renderElement regExp ctx logger e conf vars
     = logPrefixed logger (renderElement regExp ctx [] e conf vars)"
proof (cases e)
  case (Text t)
  then show ?thesis
    by (cases "renderTextElement regExp ctx t conf vars") (simp_all add: renderElement_def)
next
  case (Stripes s)
  then show ?thesis
    by (cases "renderStripeElement ctx s conf") (simp_all add: renderElement_def)
next
  case (Grid g)
  then show ?thesis
    by (cases "renderGridElement ctx g conf") (simp_all add: renderElement_def)
qed (simp_all add: renderElement_def)

lemma renderElements_step:
  "renderElements regExp ctx logger conf i (e # rest) vars =
     (case renderElement regExp ctx [] e conf vars of
        None \<Rightarrow> None
      | Some (Inr (ctx', m)) \<Rightarrow> renderElements regExp ctx' (logger @ m) conf (Suc i) rest vars
      | Some (Inl err) \<Rightarrow>
          (case elementType e of
             None \<Rightarrow> Some (Inl TypeError)
           | Some ty \<Rightarrow>
               renderElements regExp ctx
                 (logger @ [''Failed to render element '' @ nat_to_string (Suc i)
                            @ '' ('' @ ty @ '')''])
                 conf (Suc i) rest vars))"
proof -
  have "renderElement regExp ctx logger e conf vars
          = logPrefixed logger (renderElement regExp ctx [] e conf vars)"
    by (rule renderElement_logger)
  then show ?thesis
    by (simp add: logPrefixed_def split: option.splits sum.splits prod.splits)
qed

lemma renderElements_logger:
  "renderElements regExp ctx logger conf i es vars
     = logPrefixed logger (renderElements regExp ctx [] conf i es vars)"
proof (induction es arbitrary: ctx logger i)
  case Nil
  then show ?case by simp
next
  case (Cons e es)
  show ?case
  proof (cases "renderElement regExp ctx [] e conf vars")
    case None
    then show ?thesis by (simp add: renderElements_step del: renderElements.simps)
  next
    case (Some res)
    show ?thesis
    proof (cases res)
      case (Inl err)
      show ?thesis
      proof (cases "elementType e")
        case None
        then show ?thesis using Some Inl by (simp add: renderElements_step del: renderElements.simps)
      next
        case (Some ty)
        let ?msg = "''Failed to render element '' @ nat_to_string (Suc i) @ '' ('' @ ty @ '')''"
        have "renderElements regExp ctx (logger @ [?msg]) conf (Suc i) es vars
                = logPrefixed (logger @ [?msg]) (renderElements regExp ctx [] conf (Suc i) es vars)"
          by (rule Cons.IH)
        moreover have "renderElements regExp ctx [?msg] conf (Suc i) es vars
                = logPrefixed [?msg] (renderElements regExp ctx [] conf (Suc i) es vars)"
          by (rule Cons.IH)
        ultimately show ?thesis
          using Some Inl \<open>renderElement regExp ctx [] e conf vars = Some res\<close>
          by (simp add: renderElements_step logPrefixed_twice del: renderElements.simps)
      qed
    next
      case (Inr p)
      obtain c m where p: "p = (c, m)" by (cases p)
      have "renderElements regExp c (logger @ m) conf (Suc i) es vars
              = logPrefixed (logger @ m) (renderElements regExp c [] conf (Suc i) es vars)"
        by (rule Cons.IH)
      moreover have "renderElements regExp c m conf (Suc i) es vars
              = logPrefixed m (renderElements regExp c [] conf (Suc i) es vars)"
        by (rule Cons.IH)
      ultimately show ?thesis
        using Some Inr p
        by (simp add: renderElements_step logPrefixed_twice del: renderElements.simps)
    qed
  qed
qed

lemma renderElements_index:
  "sameDrawing (renderElements regExp ctx [] conf i es vars)
               (renderElements regExp ctx [] conf j es vars)"
proof (induction es arbitrary: ctx i j)
  case Nil
  then show ?case by (simp add: sameDrawing_def)
next
  case (Cons e es)
  show ?case
  proof (cases "renderElement regExp ctx [] e conf vars")
    case None
    then show ?thesis by (simp add: renderElements_step sameDrawing_def del: renderElements.simps)
  next
    case (Some res)
    show ?thesis
    proof (cases res)
      case (Inl err)
      show ?thesis
      proof (cases "elementType e")
        case None
        then show ?thesis using Some Inl
          by (simp add: renderElements_step sameDrawing_def del: renderElements.simps)
      next
        case (Some ty)
        let ?msg = "\<lambda>k. ''Failed to render element '' @ nat_to_string (Suc k) @ '' ('' @ ty @ '')''"
        have "sameDrawing (logPrefixed [?msg i] (renderElements regExp ctx [] conf (Suc i) es vars))
                          (logPrefixed [?msg j] (renderElements regExp ctx [] conf (Suc j) es vars))"
          using Cons.IH [of ctx "Suc i" "Suc j"]
          by (rule sameDrawing_logPrefixed) (simp only: list.map unnumbered_failed)
        then show ?thesis
          using Some Inl \<open>renderElement regExp ctx [] e conf vars = Some res\<close>
                renderElements_logger [of regExp ctx "[?msg i]" conf "Suc i" es vars]
                renderElements_logger [of regExp ctx "[?msg j]" conf "Suc j" es vars]
          by (simp add: renderElements_step del: renderElements.simps)
      qed
    next
      case (Inr p)
      obtain c m where p: "p = (c, m)" by (cases p)
      have "sameDrawing (logPrefixed m (renderElements regExp c [] conf (Suc i) es vars))
                        (logPrefixed m (renderElements regExp c [] conf (Suc j) es vars))"
        using Cons.IH [of c "Suc i" "Suc j"] by (rule sameDrawing_logPrefixed) simp
      then show ?thesis
        using Some Inr p
              renderElements_logger [of regExp c m conf "Suc i" es vars]
              renderElements_logger [of regExp c m conf "Suc j" es vars]
        by (simp add: renderElements_step del: renderElements.simps)
    qed
  qed
qed

lemma renderElements_append:
  "renderElements regExp ctx logger conf i (xs @ ys) vars
     = (case renderElements regExp ctx logger conf i xs vars of
          None \<Rightarrow> None
        | Some (Inl err) \<Rightarrow> Some (Inl err)
        | Some (Inr (c, l)) \<Rightarrow> renderElements regExp c l conf (i + length xs) ys vars)"
proof (induction xs arbitrary: ctx logger i)
  case Nil
  then show ?case by simp
next
  case (Cons e xs)
  show ?case
    unfolding append_Cons renderElements_step [of regExp ctx logger conf i e]
    by (simp add: Cons.IH split: option.splits sum.splits prod.splits)
qed

lemma renderElements_returns:
  assumes "\<forall>e \<in> set es. stepsPositive (scaleFactor conf) e" "NullEntry \<notin> set es"
  shows "\<exists>c l. renderElements regExp ctx logger conf i es vars = Some (Inr (c, l))"
  using assms
proof (induction es arbitrary: ctx logger i)
  case Nil
  then show ?case by simp
next
  case (Cons e es)
  then have e: "stepsPositive (scaleFactor conf) e" "e \<noteq> NullEntry" by auto
  from Cons have rest: "\<exists>c l. renderElements regExp ctx' logger' conf i' es vars = Some (Inr (c, l))"
    for ctx' logger' i' by simp
  from renderElement_terminates [OF e(1)] obtain res where
    res: "renderElement regExp ctx [] e conf vars = Some res" by blast
  have ty: "elementType e \<noteq> None" using e(2) by (cases e) (simp_all add: elementType_def)
  show ?case
    unfolding renderElements_step [of regExp ctx logger conf i e] res
    using ty rest by (auto split: sum.splits option.splits)
qed

text \<open>
  Two runs of the loop of \<^verbatim>\<open>renderFromTemplate\<close>. When the pattern of a key does not
  compile, the text element is skipped and the message carries its position in the
  template, so it changes with an unknown element in front. The entry \<^verbatim>\<open>null\<close> ends the
  loop with the exception of the handler.
\<close>

lemma nat_to_string_small:
  "nat_to_string (Suc 0) = ''1''" "nat_to_string (Suc (Suc 0)) = ''2''"
  by code_simp+

lemma renderElements_failed_index:
  assumes "regExp ''{{a(b}}'' = None"
  shows "renderElements regExp ctx [] conf 0 [Unknown ''barcode'', Text t]
           (Some [(''a(b'', VNumber 1)])
         = Some (Inr (ctx, [''Unknown element type: barcode'',
                            ''Failed to render element 2 (text)'']))"
    and "renderElements regExp ctx [] conf 0 [Text t] (Some [(''a(b'', VNumber 1)])
         = Some (Inr (ctx, [''Failed to render element 1 (text)'']))"
  using assms
  by (simp_all add: renderElement_def renderTextElement_def processVariables_def elementType_def
        nat_to_string_small)

lemma renderElements_null_entry:
  "renderElements regExp ctx logger conf i (NullEntry # rest) vars = Some (Inl TypeError)"
  by (simp add: renderElement_def elementType_def)

lemma createImageFromJson_unfold:
  "createImageFromJson regExp toBuffer dims logger options =
     (let conf = getCanvasConfig (effectiveDimensions dims (template options))
                   (dummyOptions (template options));
          ctx = configureContext [] conf (dummyOptions (template options))
      in case renderElements regExp ctx logger conf 0 (elements (template options))
                (variables options) of
           None \<Rightarrow> None
         | Some (Inl err) \<Rightarrow> Some (Inl err)
         | Some (Inr (ctx', logger')) \<Rightarrow>
             Some (Inr \<lparr> out_imageData =
                      canvasToImageData
                        (fst (toBuffer (CanvasConfig.width conf) (CanvasConfig.height conf) ctx'))
                        (snd (toBuffer (CanvasConfig.width conf) (CanvasConfig.height conf) ctx'))
                        conf,
                    out_config = conf, out_context = ctx', out_errorLog = logger' \<rparr>))"
  by (simp add: createImageFromJson_def effectiveDimensions_def dummyOptions_def setupCanvas_def
        renderFromTemplate_def Let_def split: option.splits prod.splits sum.splits)

lemma scaleFactor_getCanvasConfig:
  "scaleFactor (getCanvasConfig (effectiveDimensions dims t) opts) = real_of_int (dpi dims) / 96"
  by (simp add: getCanvasConfig_def effectiveDimensions_def STANDARD_DPI_def Let_def
        split: option.splits)

lemma createImageFromJson_returns:
  assumes "\<forall>e \<in> set (elements (template options)). stepsPositive (real_of_int (dpi dims) / 96) e"
    and "NullEntry \<notin> set (elements (template options))"
  shows "\<exists>r. createImageFromJson regExp toBuffer dims logger options = Some (Inr r)"
proof -
  let ?conf = "getCanvasConfig (effectiveDimensions dims (template options))
                 (dummyOptions (template options))"
  have "\<forall>e \<in> set (elements (template options)). stepsPositive (scaleFactor ?conf) e"
    using assms(1) by (simp add: scaleFactor_getCanvasConfig)
  from renderElements_returns [OF this assms(2)]
  obtain c l where "renderElements regExp (configureContext [] ?conf (dummyOptions (template options)))
                      logger ?conf 0 (elements (template options)) (variables options)
                    = Some (Inr (c, l))"
    by blast
  then show ?thesis
    by (simp add: createImageFromJson_unfold Let_def)
qed

lemma renderElements_null:
  assumes "\<forall>e \<in> set es. stepsPositive (scaleFactor conf) e" "NullEntry \<in> set es"
  shows "renderElements regExp ctx logger conf i es vars = Some (Inl TypeError)"
  using assms
proof (induction es arbitrary: ctx logger i)
  case Nil
  then show ?case by simp
next
  case (Cons e es)
  show ?case
  proof (cases "e = NullEntry")
    case True
    then show ?thesis by (simp add: renderElement_def elementType_def)
  next
    case False
    then have rest: "\<forall>e \<in> set es. stepsPositive (scaleFactor conf) e" "NullEntry \<in> set es"
      using Cons.prems by auto
    from False obtain ty where ty: "elementType e = Some ty"
      by (cases e) (simp_all add: elementType_def)
    from Cons.prems(1) renderElement_terminates [of conf e regExp ctx logger vars]
    obtain res where res: "renderElement regExp ctx logger e conf vars = Some res"
      by auto
    show ?thesis
    proof (cases res)
      case (Inl err)
      then show ?thesis using res ty Cons.IH [OF rest] by simp
    next
      case (Inr p)
      then show ?thesis using res Cons.IH [OF rest] by (cases p) simp
    qed
  qed
qed

lemma createImageFromJson_null:
  assumes "\<forall>e \<in> set (elements (template options)). stepsPositive (real_of_int (dpi dims) / 96) e"
    and "NullEntry \<in> set (elements (template options))"
  shows "createImageFromJson regExp toBuffer dims logger options = Some (Inl TypeError)"
proof -
  let ?conf = "getCanvasConfig (effectiveDimensions dims (template options))
                 (dummyOptions (template options))"
  have "\<forall>e \<in> set (elements (template options)). stepsPositive (scaleFactor ?conf) e"
    using assms(1) by (simp add: scaleFactor_getCanvasConfig)
  from renderElements_null [OF this assms(2)] show ?thesis
    by (simp add: createImageFromJson_unfold Let_def)
qed

text \<open>
  Claim C9, as stated, fails. With base dimensions of width 0 and a template without an
  override, the canvas is 227 pixels wide, not 0: \<^verbatim>\<open>getCanvasConfig\<close> replaces a width of 0
  by the default \<^verbatim>\<open>0xE3\<close>.
\<close>

theorem effective_render_dimensions_counterexample:
  "canvasSize
     (createImageFromJson literalRegExp blankBuffer \<lparr> width = 0, height = 17, dpi = 203 \<rparr> []
        \<lparr> template = emptyTemplate, variables = None \<rparr>)
   = Some (227, 136)
   \<and> canvasSize
     (createImageFromJson literalRegExp blankBuffer \<lparr> width = 0, height = 17, dpi = 203 \<rparr> []
        \<lparr> template = emptyTemplate, variables = None \<rparr>)
   \<noteq> Some (width \<lparr> width = 0, height = 17, dpi = 203 \<rparr>,
             height \<lparr> width = 0, height = 17, dpi = 203 \<rparr> * 8)"
  by (simp add: createImageFromJson_unfold emptyTemplate_def effectiveDimensions_def
        getCanvasConfig_def HEIGHT_MULTIPLIER_def canvasSize_def Let_def)

text \<open>
  Claim C9, amended. The configuration that \<^verbatim>\<open>createImageFromJson\<close> returns, which is the
  size of the canvas it packs, has the effective width, or 227 when the effective width is
  0, and eight times the effective height; the effective width and height are those of
  the override of the template where present and not 0, and those of the base dimensions
  otherwise. Whenever the loops of the elements end, a result is returned if no entry of
  the template is \<^verbatim>\<open>null\<close>, and the call ends with a \<^verbatim>\<open>TypeError\<close> if one is.
\<close>

theorem effective_render_dimensions:
  "(\<forall>r. createImageFromJson regExp toBuffer dims logger options = Some (Inr r) \<longrightarrow>
      CanvasConfig.width (out_config r) =
        (let effectiveWidth =
               (case RenderTemplate.dimensions (template options) of
                  None \<Rightarrow> width dims
                | Some td \<Rightarrow> (case TemplateDimensions.width td of
                                None \<Rightarrow> width dims
                              | Some w \<Rightarrow> if w = 0 then width dims else w))
         in if effectiveWidth = 0 then 227 else effectiveWidth)
    \<and> CanvasConfig.height (out_config r) =
        (let effectiveHeight =
               (case RenderTemplate.dimensions (template options) of
                  None \<Rightarrow> height dims
                | Some td \<Rightarrow> (case TemplateDimensions.height td of
                                None \<Rightarrow> height dims
                              | Some h \<Rightarrow> if h = 0 then height dims else h))
         in effectiveHeight * 8)
    \<and> out_imageData r =
        canvasToImageData
          (fst (toBuffer (CanvasConfig.width (out_config r)) (CanvasConfig.height (out_config r))
                  (out_context r)))
          (snd (toBuffer (CanvasConfig.width (out_config r)) (CanvasConfig.height (out_config r))
                  (out_context r)))
          (out_config r))
   \<and> ((\<forall>e \<in> set (elements (template options)). stepsPositive (real_of_int (dpi dims) / 96) e)
        \<longrightarrow> (if NullEntry \<in> set (elements (template options))
             then createImageFromJson regExp toBuffer dims logger options = Some (Inl TypeError)
             else (\<exists>r. createImageFromJson regExp toBuffer dims logger options = Some (Inr r))))"
proof -
  have size: "CanvasConfig.width (out_config r) =
        (let effectiveWidth =
               (case RenderTemplate.dimensions (template options) of
                  None \<Rightarrow> width dims
                | Some td \<Rightarrow> (case TemplateDimensions.width td of
                                None \<Rightarrow> width dims
                              | Some w \<Rightarrow> if w = 0 then width dims else w))
         in if effectiveWidth = 0 then 227 else effectiveWidth)
    \<and> CanvasConfig.height (out_config r) =
        (let effectiveHeight =
               (case RenderTemplate.dimensions (template options) of
                  None \<Rightarrow> height dims
                | Some td \<Rightarrow> (case TemplateDimensions.height td of
                                None \<Rightarrow> height dims
                              | Some h \<Rightarrow> if h = 0 then height dims else h))
         in effectiveHeight * 8)
    \<and> out_imageData r =
        canvasToImageData
          (fst (toBuffer (CanvasConfig.width (out_config r)) (CanvasConfig.height (out_config r))
                  (out_context r)))
          (snd (toBuffer (CanvasConfig.width (out_config r)) (CanvasConfig.height (out_config r))
                  (out_context r)))
          (out_config r)"
    if "createImageFromJson regExp toBuffer dims logger options = Some (Inr r)" for r
  proof -
    let ?conf = "getCanvasConfig (effectiveDimensions dims (template options))
                   (dummyOptions (template options))"
    from that obtain c l where
      r: "r = \<lparr> out_imageData =
                  canvasToImageData
                    (fst (toBuffer (CanvasConfig.width ?conf) (CanvasConfig.height ?conf) c))
                    (snd (toBuffer (CanvasConfig.width ?conf) (CanvasConfig.height ?conf) c))
                    ?conf,
                out_config = ?conf, out_context = c, out_errorLog = l \<rparr>"
      by (auto simp: createImageFromJson_unfold Let_def split: option.splits sum.splits)
    have w: "CanvasConfig.width ?conf =
        (let effectiveWidth =
               (case RenderTemplate.dimensions (template options) of
                  None \<Rightarrow> width dims
                | Some td \<Rightarrow> (case TemplateDimensions.width td of
                                None \<Rightarrow> width dims
                              | Some w \<Rightarrow> if w = 0 then width dims else w))
         in if effectiveWidth = 0 then 227 else effectiveWidth)"
      by (simp add: getCanvasConfig_def effectiveDimensions_def or_default_def Let_def
            split: option.splits)
    have h: "CanvasConfig.height ?conf =
        (let effectiveHeight =
               (case RenderTemplate.dimensions (template options) of
                  None \<Rightarrow> height dims
                | Some td \<Rightarrow> (case TemplateDimensions.height td of
                                None \<Rightarrow> height dims
                              | Some h \<Rightarrow> if h = 0 then height dims else h))
         in effectiveHeight * 8)"
      by (simp add: getCanvasConfig_def effectiveDimensions_def or_default_def Let_def
            HEIGHT_MULTIPLIER_def split: option.splits)
    show ?thesis unfolding r using w h by simp
  qed
  have "createImageFromJson regExp toBuffer dims logger options = Some (Inl TypeError)"
    if "\<forall>e \<in> set (elements (template options)). stepsPositive (real_of_int (dpi dims) / 96) e"
      and "NullEntry \<in> set (elements (template options))"
    using that by (rule createImageFromJson_null)
  moreover have "\<exists>r. createImageFromJson regExp toBuffer dims logger options = Some (Inr r)"
    if "\<forall>e \<in> set (elements (template options)). stepsPositive (real_of_int (dpi dims) / 96) e"
      and "NullEntry \<notin> set (elements (template options))"
    using that by (rule createImageFromJson_returns)
  ultimately show ?thesis using size by (simp only: split: if_splits) blast
qed

theorem effective_render_dimensions_witness:
  "\<exists>r. createImageFromJson literalRegExp blankBuffer (IMAGE_DIMENSIONS 203) []
          \<lparr> template = demoTemplate, variables = None \<rparr> = Some (Inr r)
      \<and> CanvasConfig.width (out_config r) = 384
      \<and> CanvasConfig.height (out_config r) = 136"
proof -
  let ?options = "\<lparr> template = demoTemplate, variables = None \<rparr>"
  have h: "(\<forall>e \<in> set (elements (template ?options)).
             stepsPositive (real_of_int (dpi (IMAGE_DIMENSIONS 203)) / 96) e)
           \<and> NullEntry \<notin> set (elements (template ?options))"
    by (simp add: demoTemplate_def)
  from effective_render_dimensions
         [of literalRegExp blankBuffer "IMAGE_DIMENSIONS 203" "[]" ?options] h
  obtain r where r: "createImageFromJson literalRegExp blankBuffer (IMAGE_DIMENSIONS 203) []
                       ?options = Some (Inr r)"
    by (auto split: if_splits)
  from effective_render_dimensions
         [of literalRegExp blankBuffer "IMAGE_DIMENSIONS 203" "[]" ?options] r
  have "CanvasConfig.width (out_config r) = 384 \<and> CanvasConfig.height (out_config r) = 136"
    by (simp add: demoTemplate_def IMAGE_DIMENSIONS_def)
  then show ?thesis using r by blast
qed

text \<open>
  Claim C8. An element with an unknown type tag leaves the context as it is and logs one
  error. A template with such an element among its elements does not end, or ends with an
  exception, exactly when the template without it does, with the same exception. When the
  template without it returns a result, so does the template with it, and both give the
  same calls on the canvas, the same configuration and the same packed image. The error
  log of the first is that of the second with the one message for the unknown element
  added; the messages after it are the same but for the element numbers that the messages
  of failed elements carry, which are one higher.
\<close>

theorem unknown_element_skipped:
  "renderElement regExp ctx logger (Unknown tag) conf vars
     = Some (Inr (ctx, logger @ [''Unknown element type: '' @ tag]))
   \<and> (createImageFromJson regExp toBuffer dims logger
         \<lparr> template = t\<lparr> elements := before @ Unknown tag # after \<rparr>, variables = vars \<rparr> = None
      \<longleftrightarrow> createImageFromJson regExp toBuffer dims logger
         \<lparr> template = t\<lparr> elements := before @ after \<rparr>, variables = vars \<rparr> = None)
   \<and> (\<forall>err. createImageFromJson regExp toBuffer dims logger
         \<lparr> template = t\<lparr> elements := before @ Unknown tag # after \<rparr>, variables = vars \<rparr>
           = Some (Inl err)
      \<longleftrightarrow> createImageFromJson regExp toBuffer dims logger
         \<lparr> template = t\<lparr> elements := before @ after \<rparr>, variables = vars \<rparr> = Some (Inl err))
   \<and> (\<forall>r'. createImageFromJson regExp toBuffer dims logger
               \<lparr> template = t\<lparr> elements := before @ after \<rparr>, variables = vars \<rparr>
                 = Some (Inr r') \<longrightarrow>
         (\<exists>r l1 l2 l2'. createImageFromJson regExp toBuffer dims logger
               \<lparr> template = t\<lparr> elements := before @ Unknown tag # after \<rparr>, variables = vars \<rparr>
                 = Some (Inr r)
            \<and> out_imageData r = out_imageData r'
            \<and> out_context r = out_context r'
            \<and> out_config r = out_config r'
            \<and> out_errorLog r' = l1 @ l2
            \<and> out_errorLog r = l1 @ [''Unknown element type: '' @ tag] @ l2'
            \<and> map unnumbered l2' = map unnumbered l2))"
proof -
  let ?with = "t\<lparr> elements := before @ Unknown tag # after \<rparr>"
  let ?without = "t\<lparr> elements := before @ after \<rparr>"
  let ?msg = "''Unknown element type: '' @ tag"
  define conf' where "conf' = getCanvasConfig (effectiveDimensions dims t) (dummyOptions t)"
  define ctx0 where "ctx0 = configureContext [] conf' (dummyOptions t)"
  define result where "result c l =
      \<lparr> out_imageData =
           canvasToImageData
             (fst (toBuffer (CanvasConfig.width conf') (CanvasConfig.height conf') c))
             (snd (toBuffer (CanvasConfig.width conf') (CanvasConfig.height conf') c))
             conf',
         out_config = conf', out_context = c, out_errorLog = l \<rparr>" for c l
  define W where "W = createImageFromJson regExp toBuffer dims logger
                        \<lparr> template = ?with, variables = vars \<rparr>"
  define WO where "WO = createImageFromJson regExp toBuffer dims logger
                         \<lparr> template = ?without, variables = vars \<rparr>"
  have same: "effectiveDimensions dims (t\<lparr> elements := es \<rparr>) = effectiveDimensions dims t"
             "dummyOptions (t\<lparr> elements := es \<rparr>) = dummyOptions t" for es
    by (simp_all add: effectiveDimensions_def dummyOptions_def)
  have run: "createImageFromJson regExp toBuffer dims logger
               \<lparr> template = t\<lparr> elements := es \<rparr>, variables = vars \<rparr>
             = (case renderElements regExp ctx0 logger conf' 0 es vars of
                  None \<Rightarrow> None
                | Some (Inl err) \<Rightarrow> Some (Inl err)
                | Some (Inr (c, l)) \<Rightarrow> Some (Inr (result c l)))" for es
    by (simp add: createImageFromJson_unfold same conf'_def ctx0_def result_def Let_def
          split: option.splits sum.splits)
  have one: "renderElement regExp ctx logger (Unknown tag) conf vars
               = Some (Inr (ctx, logger @ [?msg]))"
    by (simp add: renderElement_def)
  have U: "renderElements regExp ctx0 logger conf' 0 (before @ Unknown tag # after) vars
     = (case renderElements regExp ctx0 logger conf' 0 before vars of
          None \<Rightarrow> None
        | Some (Inl err) \<Rightarrow> Some (Inl err)
        | Some (Inr (c, l)) \<Rightarrow>
            logPrefixed (l @ [?msg])
              (renderElements regExp c [] conf' (Suc (length before)) after vars))"
  proof -
    have "renderElements regExp c l conf' (0 + length before) (Unknown tag # after) vars
            = logPrefixed (l @ [?msg])
                (renderElements regExp c [] conf' (Suc (length before)) after vars)" for c l
      using renderElements_logger [of regExp c "l @ [?msg]" conf' "Suc (length before)" after vars]
      by (simp add: renderElement_def)
    then show ?thesis
      unfolding renderElements_append [of regExp ctx0 logger conf' 0 before "Unknown tag # after" vars]
      by (simp split: option.splits sum.splits)
  qed
  have V: "renderElements regExp ctx0 logger conf' 0 (before @ after) vars
     = (case renderElements regExp ctx0 logger conf' 0 before vars of
          None \<Rightarrow> None
        | Some (Inl err) \<Rightarrow> Some (Inl err)
        | Some (Inr (c, l)) \<Rightarrow> renderElements regExp c l conf' (length before) after vars)"
    unfolding renderElements_append [of regExp ctx0 logger conf' 0 before after vars]
    by (simp split: option.splits sum.splits)
  have main: "(W = None \<longleftrightarrow> WO = None)
      \<and> (\<forall>err. W = Some (Inl err) \<longleftrightarrow> WO = Some (Inl err))
      \<and> (\<forall>r'. WO = Some (Inr r') \<longrightarrow>
           (\<exists>r l1 l2 l2'. W = Some (Inr r)
              \<and> out_imageData r = out_imageData r'
              \<and> out_context r = out_context r'
              \<and> out_config r = out_config r'
              \<and> out_errorLog r' = l1 @ l2
              \<and> out_errorLog r = l1 @ [?msg] @ l2'
              \<and> map unnumbered l2' = map unnumbered l2))"
  proof (cases "renderElements regExp ctx0 logger conf' 0 before vars")
    case None
    then have "W = None" "WO = None" by (simp_all add: W_def WO_def run U V)
    then show ?thesis by simp
  next
    case (Some res)
    show ?thesis
    proof (cases res)
      case (Inl err)
      then have "W = Some (Inl err)" "WO = Some (Inl err)"
        using Some by (simp_all add: W_def WO_def run U V)
      then show ?thesis by simp
    next
      case (Inr p)
      obtain c1 l1 where p: "p = (c1, l1)" by (cases p)
      define A where "A = renderElements regExp c1 [] conf' (length before) after vars"
      define A' where "A' = renderElements regExp c1 [] conf' (Suc (length before)) after vars"
      have rel: "sameDrawing A A'" unfolding A_def A'_def by (rule renderElements_index)
      have eqW: "W = (case logPrefixed (l1 @ [?msg]) A' of
                        None \<Rightarrow> None
                      | Some (Inl err) \<Rightarrow> Some (Inl err)
                      | Some (Inr (c, l)) \<Rightarrow> Some (Inr (result c l)))"
        using Some Inr p by (simp add: W_def run U A'_def)
      have "renderElements regExp c1 l1 conf' (length before) after vars = logPrefixed l1 A"
        unfolding A_def by (rule renderElements_logger)
      then have eqWO: "WO = (case logPrefixed l1 A of
                        None \<Rightarrow> None
                      | Some (Inl err) \<Rightarrow> Some (Inl err)
                      | Some (Inr (c, l)) \<Rightarrow> Some (Inr (result c l)))"
        using Some Inr p by (simp add: WO_def run V)
      show ?thesis
      proof (cases A)
        case None
        then have "A' = None" using rel by (simp add: sameDrawing_def)
        then show ?thesis using None by (simp add: eqW eqWO)
      next
        case (Some resA)
        show ?thesis
        proof (cases resA)
          case (Inl err)
          then have "A' = Some (Inl err)" using rel Some by (simp add: sameDrawing_def)
          then show ?thesis using Some Inl by (simp add: eqW eqWO)
        next
          case (Inr q)
          obtain c2 l2 where q: "q = (c2, l2)" by (cases q)
          from rel Some Inr q obtain l2' where
            A': "A' = Some (Inr (c2, l2'))" and len: "map unnumbered l2' = map unnumbered l2"
            by (auto simp: sameDrawing_def split: option.splits sum.splits prod.splits)
          have w: "W = Some (Inr (result c2 (l1 @ [?msg] @ l2')))"
            using A' by (simp add: eqW)
          have wo: "WO = Some (Inr (result c2 (l1 @ l2)))"
            using Some Inr q by (simp add: eqWO)
          have "\<exists>r la lb lb'. W = Some (Inr r)
              \<and> out_imageData r = out_imageData (result c2 (l1 @ l2))
              \<and> out_context r = out_context (result c2 (l1 @ l2))
              \<and> out_config r = out_config (result c2 (l1 @ l2))
              \<and> out_errorLog (result c2 (l1 @ l2)) = la @ lb
              \<and> out_errorLog r = la @ [?msg] @ lb'
              \<and> map unnumbered lb' = map unnumbered lb"
            unfolding w
            by (intro exI [of _ "result c2 (l1 @ [?msg] @ l2')"] exI [of _ l1] exI [of _ l2]
                      exI [of _ l2'])
               (simp add: result_def len)
          then show ?thesis using w wo by simp
        qed
      qed
    qed
  qed
  show ?thesis using one main unfolding W_def WO_def by simp
qed

theorem unknown_element_skipped_witness:
  "\<exists>r r'. createImageFromJson literalRegExp blankBuffer (IMAGE_DIMENSIONS 203) []
             \<lparr> template = demoTemplate\<lparr> elements := [] @ elements demoTemplate \<rparr>,
               variables = None \<rparr> = Some (Inr r')
        \<and> createImageFromJson literalRegExp blankBuffer (IMAGE_DIMENSIONS 203) []
             \<lparr> template = demoTemplate\<lparr> elements := [] @ Unknown ''barcode'' # elements demoTemplate \<rparr>,
               variables = None \<rparr> = Some (Inr r)
        \<and> out_imageData r = out_imageData r'
        \<and> out_context r = out_context r'
        \<and> length (out_errorLog r) = Suc (length (out_errorLog r'))"
proof -
  have "\<forall>e \<in> set (elements (template
           \<lparr> template = demoTemplate\<lparr> elements := [] @ elements demoTemplate \<rparr>, variables = None \<rparr>)).
          stepsPositive (real_of_int (dpi (IMAGE_DIMENSIONS 203)) / 96) e"
       "NullEntry \<notin> set (elements (template
           \<lparr> template = demoTemplate\<lparr> elements := [] @ elements demoTemplate \<rparr>, variables = None \<rparr>))"
    by (simp_all add: demoTemplate_def)
  from createImageFromJson_returns [OF this]
  obtain r' where r': "createImageFromJson literalRegExp blankBuffer (IMAGE_DIMENSIONS 203) []
             \<lparr> template = demoTemplate\<lparr> elements := [] @ elements demoTemplate \<rparr>,
               variables = None \<rparr> = Some (Inr r')"
    by blast
  from unknown_element_skipped
         [where regExp = literalRegExp and toBuffer = blankBuffer
            and dims = "IMAGE_DIMENSIONS 203" and logger = "[]"
            and t = demoTemplate and before = "[]" and tag = "''barcode''"
            and after = "elements demoTemplate" and vars = None] r'
  obtain r l1 l2 l2' where
    "createImageFromJson literalRegExp blankBuffer (IMAGE_DIMENSIONS 203) []
       \<lparr> template = demoTemplate\<lparr> elements := [] @ Unknown ''barcode'' # elements demoTemplate \<rparr>,
         variables = None \<rparr> = Some (Inr r)"
    "out_imageData r = out_imageData r'" "out_context r = out_context r'"
    "out_errorLog r' = l1 @ l2" "out_errorLog r = l1 @ [''Unknown element type: '' @ ''barcode''] @ l2'"
    "map unnumbered l2' = map unnumbered l2"
    by blast
  then show ?thesis using r' map_eq_imp_length_eq [of unnumbered l2' unnumbered l2] by auto
qed
end
